theory Spec2Isabelle
  imports Complex_Main
begin

section \<open>Python values\<close>

text \<open>
  The planner keeps its preferences and the raw itinerary legs in dictionaries that come
  out of a JSON parser, so a value is one of the JSON shapes. A dictionary is an
  association list with string keys (lookup by \<open>map_of\<close>). Python floats are modelled as
  reals: arithmetic is exact, there is no NaN and no rounding. A raised exception is the
  result \<open>None\<close>; every handler of the modelled code catches all exceptions, so the kind
  of the exception never decides a branch.
\<close>

datatype pyval =
    PNone
  | PBool bool
  | PInt int
  | PFloat real
  | PStr string
  | PList "pyval list"
  | PDict "(string \<times> pyval) list"

type_synonym pydict = "(string \<times> pyval) list"

text \<open>
  The builtins \<open>float(s)\<close> and \<open>int(s)\<close> on a string parse it; the parsers are
  parameters of the model.
\<close>

record parsers =
  str_float :: "string \<Rightarrow> real option"
  str_int :: "string \<Rightarrow> int option"

text \<open>Truthiness, as \<open>x or y\<close> and \<open>if not x\<close> test it.\<close>

fun truthy :: "pyval \<Rightarrow> bool" where
  "truthy PNone = False"
| "truthy (PBool b) = b"
| "truthy (PInt i) = (i \<noteq> 0)"
| "truthy (PFloat r) = (r \<noteq> 0)"
| "truthy (PStr s) = (s \<noteq> [])"
| "truthy (PList xs) = (xs \<noteq> [])"
| "truthy (PDict d) = (d \<noteq> [])"

definition py_or :: "pyval \<Rightarrow> pyval \<Rightarrow> pyval" where
  "py_or a b = (if truthy a then a else b)"

text \<open>\<open>float(v)\<close>: TypeError on None, lists and dicts, ValueError on a bad string.\<close>

fun py_float :: "parsers \<Rightarrow> pyval \<Rightarrow> real option" where
  "py_float ps PNone = None"
| "py_float ps (PBool b) = Some (if b then 1 else 0)"
| "py_float ps (PInt i) = Some (real_of_int i)"
| "py_float ps (PFloat r) = Some r"
| "py_float ps (PStr s) = str_float ps s"
| "py_float ps (PList xs) = None"
| "py_float ps (PDict d) = None"

text \<open>\<open>int(v)\<close>: a float is truncated towards zero.\<close>

definition trunc :: "real \<Rightarrow> int" where
  "trunc r = (if 0 \<le> r then \<lfloor>r\<rfloor> else \<lceil>r\<rceil>)"

fun py_int :: "parsers \<Rightarrow> pyval \<Rightarrow> int option" where
  "py_int ps PNone = None"
| "py_int ps (PBool b) = Some (if b then 1 else 0)"
| "py_int ps (PInt i) = Some i"
| "py_int ps (PFloat r) = Some (trunc r)"
| "py_int ps (PStr s) = str_int ps s"
| "py_int ps (PList xs) = None"
| "py_int ps (PDict d) = None"

text \<open>
  The numeric value of an operand of \<open><\<close> and \<open>>\<close> against a number: bools, ints and
  floats compare; everything else raises TypeError.
\<close>

fun py_num :: "pyval \<Rightarrow> real option" where
  "py_num (PBool b) = Some (if b then 1 else 0)"
| "py_num (PInt i) = Some (real_of_int i)"
| "py_num (PFloat r) = Some r"
| "py_num v = None"

text \<open>\<open>v == n\<close> for an int literal \<open>n\<close>: \<open>1 == 1.0 == True\<close> in Python.\<close>

definition py_eq_int :: "pyval \<Rightarrow> int \<Rightarrow> bool" where
  "py_eq_int v n = (case py_num v of None \<Rightarrow> False | Some x \<Rightarrow> x = real_of_int n)"

subsection \<open>Dictionaries\<close>

definition dict_get :: "pydict \<Rightarrow> string \<Rightarrow> pyval \<Rightarrow> pyval" where
  "dict_get d k dflt = (case map_of d k of None \<Rightarrow> dflt | Some v \<Rightarrow> v)"

text \<open>\<open>d[k] = v\<close>: an existing key keeps its position, a new key goes last.\<close>

fun dict_set :: "string \<Rightarrow> pyval \<Rightarrow> pydict \<Rightarrow> pydict" where
  "dict_set k v [] = [(k, v)]"
| "dict_set k v (p # ps) = (if fst p = k then (k, v) # ps else p # dict_set k v ps)"

text \<open>\<open>{**a, **b}\<close>: the entries of \<open>b\<close> are written into a copy of \<open>a\<close>, in order.\<close>

definition dict_merge :: "pydict \<Rightarrow> pydict \<Rightarrow> pydict" where
  "dict_merge a b = fold (\<lambda>(k, v) d. dict_set k v d) b a"

text \<open>\<open>v.get(k, dflt)\<close>: only a dict has the method (AttributeError otherwise).\<close>

fun py_get :: "pyval \<Rightarrow> string \<Rightarrow> pyval \<Rightarrow> pyval option" where
  "py_get (PDict d) k dflt = Some (dict_get d k dflt)"
| "py_get v k dflt = None"

text \<open>\<open>v[k]\<close> for a string key: KeyError on a missing key, TypeError on a non-dict.\<close>

fun py_item :: "pyval \<Rightarrow> string \<Rightarrow> pyval option" where
  "py_item (PDict d) k = map_of d k"
| "py_item v k = None"

text \<open>\<open>v[0]\<close>: the first element of a list, the first character of a string.\<close>

fun py_index0 :: "pyval \<Rightarrow> pyval option" where
  "py_index0 (PList (x # xs)) = Some x"
| "py_index0 (PStr (c # cs)) = Some (PStr [c])"
| "py_index0 v = None"

section \<open>Preferences\<close>

definition DEFAULT_PREFS :: pydict where
  "DEFAULT_PREFS =
     [(''crowd_weight'', PFloat 2),
      (''max_crowd'', PInt 4),
      (''walk_limit_min'', PInt 15),
      (''mode_bias'', PDict [(''SUBWAY'', PFloat 0), (''BUS'', PFloat 0), (''WALK'', PFloat 0)]),
      (''runs'', PInt 0)]"

text \<open>
  \<open>_migrate_bias\<close>: when there is no \<open>mode_bias\<close>, build it from the legacy keys as
  preference minus penalty.
\<close>

definition legacy_diff :: "parsers \<Rightarrow> pyval \<Rightarrow> pyval \<Rightarrow> string \<Rightarrow> real option" where
  "legacy_diff ps pref pen m =
     (case py_get pref m (PFloat 0) of None \<Rightarrow> None | Some a \<Rightarrow>
      case py_float ps a of None \<Rightarrow> None | Some x \<Rightarrow>
      case py_get pen m (PFloat 0) of None \<Rightarrow> None | Some b \<Rightarrow>
      case py_float ps b of None \<Rightarrow> None | Some y \<Rightarrow> Some (x - y))"

definition migrate_bias :: "parsers \<Rightarrow> pydict \<Rightarrow> pydict option" where
  "migrate_bias ps p =
     (if map_of p ''mode_bias'' = None then
        (let pen = py_or (dict_get p ''mode_penalty'' PNone) (PDict []);
             pref = py_or (dict_get p ''mode_preference'' PNone) (PDict [])
         in case legacy_diff ps pref pen ''SUBWAY'' of None \<Rightarrow> None | Some s \<Rightarrow>
            case legacy_diff ps pref pen ''BUS'' of None \<Rightarrow> None | Some b \<Rightarrow>
            case legacy_diff ps pref pen ''WALK'' of None \<Rightarrow> None | Some w \<Rightarrow>
              Some (dict_set ''mode_bias''
                      (PDict [(''SUBWAY'', PFloat s), (''BUS'', PFloat b), (''WALK'', PFloat w)]) p))
      else Some p)"

text \<open>
  The preferences file as \<open>load_prefs\<close> meets it: absent, present but unreadable or not
  JSON (the \<open>try\<close> catches it), or parsed to a value.
\<close>

datatype pref_file = Absent | Corrupt | Content pyval

definition file_data :: "pref_file \<Rightarrow> pyval" where
  "file_data f = (case f of Absent \<Rightarrow> PDict [] | Corrupt \<Rightarrow> PDict [] | Content v \<Rightarrow> v)"

text \<open>
  \<open>{**DEFAULT_PREFS, **(data or {})}\<close> stands after the \<open>try\<close>: unpacking a value that is
  not a mapping raises TypeError there.
\<close>

definition load_prefs :: "parsers \<Rightarrow> pref_file \<Rightarrow> pydict option" where
  "load_prefs ps f =
     (case py_or (file_data f) (PDict []) of
        PDict d \<Rightarrow> migrate_bias ps (dict_merge DEFAULT_PREFS d)
      | _ \<Rightarrow> None)"

definition save_prefs :: "pydict \<Rightarrow> pref_file" where
  "save_prefs prefs = Content (PDict prefs)"

section \<open>Segments and scoring\<close>

record segment =
  mode :: string
  name :: pyval
  distance_m :: pyval
  duration_min :: real
  crowd :: int
  best_car :: "int option"
  poly :: "(real \<times> real) list"

text \<open>The preferences a scoring call works with: the stored ones, overridden key by key.\<close>

definition session_prefs :: "parsers \<Rightarrow> pref_file \<Rightarrow> pydict option \<Rightarrow> pydict option" where
  "session_prefs ps f po =
     (case load_prefs ps f of None \<Rightarrow> None
      | Some stored \<Rightarrow> (case po of None \<Rightarrow> Some stored | Some p \<Rightarrow> Some (dict_merge stored p)))"

text \<open>One pass of the loop body: the new score and the new walking total.\<close>

definition score_step ::
  "parsers \<Rightarrow> pydict \<Rightarrow> pyval \<Rightarrow> real \<Rightarrow> segment \<Rightarrow> real \<times> real \<Rightarrow> (real \<times> real) option" where
  "score_step ps prefs bias crowd_w s acc =
     (case acc of (score, total_walk_min) \<Rightarrow>
      let total_walk_min' =
            (if mode s = ''WALK'' then total_walk_min + duration_min s else total_walk_min)
      in case py_get bias (mode s) (PFloat 0) of None \<Rightarrow> None | Some bv \<Rightarrow>
         case py_float ps bv of None \<Rightarrow> None | Some b \<Rightarrow>
         case py_num (dict_get prefs ''max_crowd'' (PInt 4)) of None \<Rightarrow> None | Some mc \<Rightarrow>
           Some (score + duration_min s - b + crowd_w * (real_of_int (crowd s) - 1)
                   + (if real_of_int (crowd s) > mc then 1000 else 0),
                 total_walk_min'))"

fun score_loop ::
  "parsers \<Rightarrow> pydict \<Rightarrow> pyval \<Rightarrow> real \<Rightarrow> segment list \<Rightarrow> real \<times> real \<Rightarrow> (real \<times> real) option" where
  "score_loop ps prefs bias crowd_w [] acc = Some acc"
| "score_loop ps prefs bias crowd_w (s # segs) acc =
     (case score_step ps prefs bias crowd_w s acc of None \<Rightarrow> None
      | Some acc' \<Rightarrow> score_loop ps prefs bias crowd_w segs acc')"

definition score_with :: "parsers \<Rightarrow> pydict \<Rightarrow> segment list \<Rightarrow> real option" where
  "score_with ps prefs segs =
     (let bias = dict_get prefs ''mode_bias'' (PDict [])
      in case py_float ps (dict_get prefs ''crowd_weight'' (PFloat 0)) of None \<Rightarrow> None
         | Some crowd_w \<Rightarrow>
        (case score_loop ps prefs bias crowd_w segs (0, 0) of None \<Rightarrow> None
         | Some (score, total_walk_min) \<Rightarrow>
        (case py_num (dict_get prefs ''walk_limit_min'' (PInt 15)) of None \<Rightarrow> None
         | Some walk_limit \<Rightarrow> Some (if total_walk_min > walk_limit then score + 999 else score))))"

definition score_route ::
  "parsers \<Rightarrow> pref_file \<Rightarrow> segment list \<Rightarrow> pydict option \<Rightarrow> real option" where
  "score_route ps f segs po =
     (case session_prefs ps f po of None \<Rightarrow> None | Some prefs \<Rightarrow> score_with ps prefs segs)"

section \<open>Route selection\<close>

text \<open>The scores of all candidates; one failing call fails the whole comprehension.\<close>

fun score_all ::
  "parsers \<Rightarrow> pref_file \<Rightarrow> pydict option \<Rightarrow> segment list list \<Rightarrow> real list option" where
  "score_all ps f po [] = Some []"
| "score_all ps f po (r # rs) =
     (case score_route ps f r po of None \<Rightarrow> None
      | Some s \<Rightarrow> (case score_all ps f po rs of None \<Rightarrow> None | Some ss \<Rightarrow> Some (s # ss)))"

text \<open>The triples \<open>(score, i + 1, route)\<close>, numbered from \<open>n\<close>.\<close>

fun scored_from :: "int \<Rightarrow> real list \<Rightarrow> segment list list \<Rightarrow> (real \<times> int \<times> segment list) list" where
  "scored_from n (s # ss) (r # rs) = (s, n, r) # scored_from (n + 1) ss rs"
| "scored_from n ss rs = []"

definition choose_best_route ::
  "parsers \<Rightarrow> pref_file \<Rightarrow> segment list list \<Rightarrow> pydict option \<Rightarrow> (int \<times> segment list) option" where
  "choose_best_route ps f routes po =
     (if routes = [] then Some (- 1, [])
      else case score_all ps f po routes of None \<Rightarrow> None
           | Some ss \<Rightarrow>
             (case sort_key fst (scored_from 1 ss routes) of
                [] \<Rightarrow> None
              | (sc, best_idx, best_route) # rest \<Rightarrow> Some (best_idx, best_route)))"

section \<open>Crowd estimators\<close>

text \<open>
  The historical tables are read with pandas. A table is modelled by what the lookup
  expression of the source evaluates to for a query: it raises, it yields NaN (no matching
  row), or it yields the mean of the matching rows. The file behind a table is absent,
  present but failing to load (\<open>read_csv\<close> raises), or loaded.
\<close>

datatype obs = LookupFails | NoObs | Mean real

datatype 'q csv = NoFile | ReadFails | Table "'q \<Rightarrow> obs"

record clock =
  weekday :: nat
  hour :: nat
  minute :: nat

definition DAY_TYPE :: "(nat \<times> int) list" where
  "DAY_TYPE = [(0, 1), (1, 1), (2, 1), (3, 1), (4, 1), (5, 2), (6, 3)]"

definition pct_to_level :: "real \<Rightarrow> int" where
  "pct_to_level pct = (if pct < 70 then 1 else if pct < 100 then 2 else if pct < 150 then 3 else 4)"

definition two_digits :: "nat \<Rightarrow> string" where
  "two_digits n = [''0123456789'' ! (n div 10 mod 10), ''0123456789'' ! (n mod 10)]"

text \<open>The half-hour bucket \<open>%H%M\<close> of the current time.\<close>

definition hhmm :: "clock \<Rightarrow> string" where
  "hhmm now = two_digits (hour now) @ (if minute now < 30 then ''00'' else ''30'')"

text \<open>\<open>random.choice\<close> and \<open>random.randint\<close>, driven by a drawn number.\<close>

definition choice :: "int list \<Rightarrow> nat \<Rightarrow> int" where
  "choice xs r = xs ! (r mod length xs)"

definition randint :: "int \<Rightarrow> int \<Rightarrow> nat \<Rightarrow> int" where
  "randint a b r = a + int (r mod nat (b - a + 1))"

text \<open>
  \<open>_load_sub_df\<close> raises FileNotFoundError when the file is absent, and \<open>read_csv\<close> may
  raise; the loaded table is cached in a global, which the model identifies with the file.
\<close>

definition load_sub_df :: "'q csv \<Rightarrow> ('q \<Rightarrow> obs) option" where
  "load_sub_df src = (case src of NoFile \<Rightarrow> None | ReadFails \<Rightarrow> None | Table df \<Rightarrow> Some df)"

text \<open>
  \<open>_load_bus_df\<close> reads the file only when it exists, without a guard around \<open>read_csv\<close>:
  it returns \<open>None\<close> for an absent file and raises when the read fails.
\<close>

definition load_bus_df :: "'q csv \<Rightarrow> ('q \<Rightarrow> obs) option option" where
  "load_bus_df src =
     (case src of NoFile \<Rightarrow> Some None | ReadFails \<Rightarrow> None | Table df \<Rightarrow> Some (Some df))"

text \<open>
  The level of the subway estimator: loading and lookup both stand inside \<open>try\<close>, and
  every exception gives the level 2.
\<close>

definition subway_level :: "(int \<times> pyval \<times> string) csv \<Rightarrow> clock \<Rightarrow> pyval \<Rightarrow> int" where
  "subway_level src now station =
     (case load_sub_df src of
        None \<Rightarrow> 2
      | Some df \<Rightarrow>
         (case map_of DAY_TYPE (weekday now) of
            None \<Rightarrow> 2
          | Some day \<Rightarrow>
             (case df (day, station, hhmm now) of
                LookupFails \<Rightarrow> 2
              | NoObs \<Rightarrow> 2
              | Mean pct \<Rightarrow> pct_to_level pct)))"

definition subway_crowd_level ::
  "(int \<times> pyval \<times> string) csv \<Rightarrow> clock \<Rightarrow> nat \<Rightarrow> pyval \<Rightarrow> int \<times> int" where
  "subway_crowd_level src now r station =
     (let lvl = subway_level src now station;
          best = (if lvl \<ge> 3 then choice [1, 10] r
                  else if lvl = 2 then choice [2, 9] r
                  else randint 1 10 r)
      in (lvl, best))"

text \<open>
  The bus estimator loads its table before the \<open>try\<close>: an exception of the load leaves
  the function, a missing table gives the level 2, and only the lookup is guarded.
\<close>

definition bus_crowd_level :: "parsers \<Rightarrow> (int \<times> nat) csv \<Rightarrow> clock \<Rightarrow> pyval \<Rightarrow> int option" where
  "bus_crowd_level ps src now route_id =
     (case load_bus_df src of
        None \<Rightarrow> None
      | Some None \<Rightarrow> Some 2
      | Some (Some df) \<Rightarrow>
         (case py_int ps route_id of
            None \<Rightarrow> Some 2
          | Some rid \<Rightarrow>
             (case df (rid, hour now) of
                LookupFails \<Rightarrow> Some 2
              | NoObs \<Rightarrow> Some 2
              | Mean b \<Rightarrow>
                  Some (if b < 10 then 1 else if b < 25 then 2 else if b < 40 then 3 else 4))))"

section \<open>Segment builder\<close>

record world =
  sub_csv :: "(int \<times> pyval \<times> string) csv"
  bus_csv :: "(int \<times> nat) csv"
  now :: clock
  rnd :: "nat \<Rightarrow> nat"

definition AVG_WALK_SPEED :: real where
  "AVG_WALK_SPEED = 13 / 10"

definition allowed :: "string list" where
  "allowed = [''SUBWAY'', ''BUS'', ''WALK'']"

text \<open>The label of a walking leg, as its UTF-8 bytes.\<close>

definition walk_label :: string where
  "walk_label = [CHR 0xEB, CHR 0x8F, CHR 0x84, CHR 0xEB, CHR 0xB3, CHR 0xB4]"

text \<open>\<open>round(x, 2)\<close>: an int stays as it is, a float goes to the nearest hundredth, ties to even.\<close>

definition round_half_even :: "real \<Rightarrow> int" where
  "round_half_even x =
     (let fl = \<lfloor>x\<rfloor>; d = x - real_of_int fl
      in if d < 1 / 2 then fl else if d > 1 / 2 then fl + 1
         else if even fl then fl else fl + 1)"

fun py_round2 :: "pyval \<Rightarrow> real option" where
  "py_round2 (PBool b) = Some (if b then 1 else 0)"
| "py_round2 (PInt i) = Some (real_of_int i)"
| "py_round2 (PFloat r) = Some (real_of_int (round_half_even (r * 100)) / 100)"
| "py_round2 v = None"

text \<open>Iterating a value: the elements of a list, the characters of a string, the keys of a dict.\<close>

fun py_iter :: "pyval \<Rightarrow> pyval list option" where
  "py_iter (PList xs) = Some xs"
| "py_iter (PStr s) = Some (map (\<lambda>c. PStr [c]) s)"
| "py_iter (PDict d) = Some (map (\<lambda>kv. PStr (fst kv)) d)"
| "py_iter v = None"

fun station_coords :: "parsers \<Rightarrow> pyval list \<Rightarrow> (real \<times> real) list option" where
  "station_coords ps [] = Some []"
| "station_coords ps (x # xs) =
     (case py_item x ''y'' of None \<Rightarrow> None | Some yv \<Rightarrow>
      case py_float ps yv of None \<Rightarrow> None | Some lat \<Rightarrow>
      case py_item x ''x'' of None \<Rightarrow> None | Some xv \<Rightarrow>
      case py_float ps xv of None \<Rightarrow> None | Some lng \<Rightarrow>
      case station_coords ps xs of None \<Rightarrow> None | Some rest \<Rightarrow> Some ((lat, lng) # rest))"

definition leg_coords :: "parsers \<Rightarrow> pyval \<Rightarrow> (real \<times> real) list option" where
  "leg_coords ps sp =
     (case py_get sp ''passStopList'' (PDict []) of None \<Rightarrow> None | Some psl \<Rightarrow>
      case py_get psl ''stations'' (PList []) of None \<Rightarrow> None | Some st \<Rightarrow>
      case py_iter st of None \<Rightarrow> None | Some xs \<Rightarrow> station_coords ps xs)"

text \<open>
  The \<open>if tp == 1 / elif tp == 2 / else\<close> of the loop body: mode, name, duration, distance,
  crowd level and best car of one raw leg. \<open>i\<close> is the position of the leg, which selects
  the random draw.
\<close>

definition leg_fields ::
  "parsers \<Rightarrow> world \<Rightarrow> nat \<Rightarrow> pyval \<Rightarrow> (string \<times> pyval \<times> pyval \<times> pyval \<times> int \<times> int option) option" where
  "leg_fields ps w i sp =
     (case sp of
        PDict d \<Rightarrow>
          (let tp = dict_get d ''trafficType'' PNone in
           if py_eq_int tp 1 then
             (case py_index0 (dict_get d ''lane'' (PList [PDict []])) of
                Some (PDict lane0) \<Rightarrow>
                  (let nm = py_or (dict_get lane0 ''laneName'' PNone)
                               (py_or (dict_get lane0 ''name'' PNone)
                                 (py_or (dict_get lane0 ''subwayName'' PNone) (PStr [])));
                       dur = dict_get d ''sectionTime'' (PInt 0);
                       dst = dict_get d ''distance'' (PInt 0)
                   in case subway_crowd_level (sub_csv w) (now w) (rnd w i) nm of
                        (lvl, best) \<Rightarrow> Some (''SUBWAY'', nm, dur, dst, lvl, Some best))
              | _ \<Rightarrow> None)
           else if py_eq_int tp 2 then
             (case map_of d ''lane'' of None \<Rightarrow> None | Some lane \<Rightarrow>
              case py_index0 lane of None \<Rightarrow> None | Some lane0 \<Rightarrow>
              case py_item lane0 ''busNo'' of None \<Rightarrow> None | Some nm \<Rightarrow>
              case map_of d ''sectionTime'' of None \<Rightarrow> None | Some dur \<Rightarrow>
              case map_of d ''distance'' of None \<Rightarrow> None | Some dst \<Rightarrow>
              case py_get lane0 ''busID'' (PStr []) of None \<Rightarrow> None | Some bus_id \<Rightarrow>
              case bus_crowd_level ps (bus_csv w) (now w) bus_id of None \<Rightarrow> None | Some lvl \<Rightarrow>
                Some (''BUS'', nm, dur, dst, lvl, None))
           else
             (let dst = dict_get d ''distance'' (PInt 0) in
              case py_num dst of None \<Rightarrow> None
              | Some x \<Rightarrow>
                  Some (''WALK'', PStr walk_label, PFloat (x / AVG_WALK_SPEED / 60), dst, 1, None)))
      | _ \<Rightarrow> None)"

fun paths_loop :: "parsers \<Rightarrow> world \<Rightarrow> nat \<Rightarrow> pyval list \<Rightarrow> segment list option" where
  "paths_loop ps w i [] = Some []"
| "paths_loop ps w i (sp # rest) =
     (case leg_fields ps w i sp of None \<Rightarrow> None
      | Some (m, nm, dur, dst, cr, best) \<Rightarrow>
          if m \<notin> set allowed then paths_loop ps w (i + 1) rest
          else
            (case leg_coords ps sp of None \<Rightarrow> None | Some coords \<Rightarrow>
             case py_round2 dur of None \<Rightarrow> None | Some d \<Rightarrow>
             case paths_loop ps w (i + 1) rest of None \<Rightarrow> None | Some segs \<Rightarrow>
               Some (\<lparr>mode = m, name = nm, distance_m = dst, duration_min = d,
                      crowd = cr, best_car = best, poly = coords\<rparr> # segs)))"

definition paths_to_segs ::
  "parsers \<Rightarrow> pref_file \<Rightarrow> world \<Rightarrow> pyval list \<Rightarrow> pydict option \<Rightarrow> segment list option" where
  "paths_to_segs ps f w paths po =
     (case (case po of None \<Rightarrow> load_prefs ps f | Some p \<Rightarrow> Some p) of
        None \<Rightarrow> None
      | Some prefs \<Rightarrow> paths_loop ps w 0 paths)"

section \<open>Preference learning\<close>

text \<open>
  \<open>dict(v)\<close>: a copy of a dict, or the dict of a sequence of pairs. A pair is any
  two-element sequence: a list, a two-character string, a dict with two keys. Keys of the
  model are strings; a pair with another key gives a dict that \<open>orjson.dumps\<close> rejects in
  \<open>save_prefs\<close>, so \<open>learn_from_choice\<close> ends in an exception on that path and the model
  raises at the conversion.
\<close>

fun pair_of :: "pyval \<Rightarrow> (string \<times> pyval) option" where
  "pair_of (PList [PStr k, v]) = Some (k, v)"
| "pair_of (PStr [a, b]) = Some ([a], PStr [b])"
| "pair_of (PDict [(k1, v1), (k2, v2)]) = Some (k1, PStr k2)"
| "pair_of v = None"

fun dict_of_pairs :: "pyval list \<Rightarrow> pydict \<Rightarrow> pydict option" where
  "dict_of_pairs [] acc = Some acc"
| "dict_of_pairs (e # es) acc =
     (case pair_of e of None \<Rightarrow> None | Some (k, v) \<Rightarrow> dict_of_pairs es (dict_set k v acc))"

fun py_dict :: "pyval \<Rightarrow> pydict option" where
  "py_dict (PDict d) = Some d"
| "py_dict (PList xs) = dict_of_pairs xs []"
| "py_dict (PStr s) = (if s = [] then Some [] else None)"
| "py_dict v = None"

text \<open>\<open>bias[m] = float(bias.get(m, 0.0)) + lr\<close> for a used mode, \<open>- lr/2.0\<close> otherwise.\<close>

definition nudge :: "parsers \<Rightarrow> string list \<Rightarrow> real \<Rightarrow> string \<Rightarrow> pydict \<Rightarrow> pydict option" where
  "nudge ps used lr m bias =
     (case py_float ps (dict_get bias m (PFloat 0)) of None \<Rightarrow> None
      | Some x \<Rightarrow> Some (dict_set m (PFloat (if m \<in> set used then x + lr else x - lr / 2)) bias))"

text \<open>
  \<open>max(-10.0, min(10.0, v))\<close>: \<open>min\<close> and \<open>max\<close> return one of their arguments, so a
  value inside the bounds keeps its type.
\<close>

definition clip :: "pyval \<Rightarrow> pyval option" where
  "clip v =
     (case py_num v of None \<Rightarrow> None
      | Some x \<Rightarrow> Some (if x < 10 then (if x > - 10 then v else PFloat (- 10)) else PFloat 10))"

fun clip_all :: "pydict \<Rightarrow> pydict option" where
  "clip_all [] = Some []"
| "clip_all (kv # rest) =
     (case clip (snd kv) of None \<Rightarrow> None | Some v' \<Rightarrow>
      case clip_all rest of None \<Rightarrow> None | Some rest' \<Rightarrow> Some ((fst kv, v') # rest'))"

definition learn_from_choice ::
  "parsers \<Rightarrow> pref_file \<Rightarrow> segment list \<Rightarrow> real \<Rightarrow> (pydict \<times> pref_file) option" where
  "learn_from_choice ps f segs lr =
     (case load_prefs ps f of None \<Rightarrow> None | Some prefs \<Rightarrow>
      case py_dict (dict_get prefs ''mode_bias''
              (PDict [(''SUBWAY'', PFloat 0), (''BUS'', PFloat 0), (''WALK'', PFloat 0)])) of
        None \<Rightarrow> None | Some bias \<Rightarrow>
      let used = map mode segs in
      case nudge ps used lr ''SUBWAY'' bias of None \<Rightarrow> None | Some b1 \<Rightarrow>
      case nudge ps used lr ''BUS'' b1 of None \<Rightarrow> None | Some b2 \<Rightarrow>
      case nudge ps used lr ''WALK'' b2 of None \<Rightarrow> None | Some b3 \<Rightarrow>
      case clip_all b3 of None \<Rightarrow> None | Some b4 \<Rightarrow>
      case py_int ps (dict_get prefs ''runs'' (PInt 0)) of None \<Rightarrow> None | Some n \<Rightarrow>
      let prefs' = dict_set ''runs'' (PInt (n + 1)) (dict_set ''mode_bias'' (PDict b4) prefs)
      in Some (prefs', save_prefs prefs'))"

text \<open>\<open>n + 1\<close> learn calls in a row, each reading the file the previous one saved.\<close>

fun learn_repeat ::
  "nat \<Rightarrow> parsers \<Rightarrow> pref_file \<Rightarrow> segment list \<Rightarrow> real \<Rightarrow> (pydict \<times> pref_file) option" where
  "learn_repeat 0 ps f segs lr = learn_from_choice ps f segs lr"
| "learn_repeat (Suc n) ps f segs lr =
     (case learn_repeat n ps f segs lr of None \<Rightarrow> None
      | Some (p, f') \<Rightarrow> learn_from_choice ps f' segs lr)"

section \<open>The cost model as the specification words it\<close>

text \<open>
  The typed preferences of the specification and its scoring pseudo-code, written down
  independently of \<open>score_route\<close> to be compared with it.
\<close>

record preferences =
  crowd_weight :: real
  max_crowd :: int
  walk_limit_min :: real
  mode_bias :: "string \<Rightarrow> real"

fun spec_accumulate :: "preferences \<Rightarrow> segment list \<Rightarrow> real \<times> real \<Rightarrow> real \<times> real" where
  "spec_accumulate P [] acc = acc"
| "spec_accumulate P (seg # segs) (cost, walkMinutes) =
     spec_accumulate P segs
       (cost + duration_min seg - mode_bias P (mode seg)
          + crowd_weight P * (real_of_int (crowd seg) - 1)
          + (if crowd seg > max_crowd P then 1000 else 0),
        if mode seg = ''WALK'' then walkMinutes + duration_min seg else walkMinutes)"

definition spec_score :: "preferences \<Rightarrow> segment list \<Rightarrow> real" where
  "spec_score P segs =
     (case spec_accumulate P segs (0, 0) of (cost, walkMinutes) \<Rightarrow>
        if walkMinutes > walk_limit_min P then cost + 999 else cost)"

text \<open>The session dictionary that carries typed preferences.\<close>

definition prefs_dict :: "preferences \<Rightarrow> pydict" where
  "prefs_dict P =
     [(''crowd_weight'', PFloat (crowd_weight P)),
      (''max_crowd'', PInt (max_crowd P)),
      (''walk_limit_min'', PFloat (walk_limit_min P)),
      (''mode_bias'', PDict [(''SUBWAY'', PFloat (mode_bias P ''SUBWAY'')),
                             (''BUS'', PFloat (mode_bias P ''BUS'')),
                             (''WALK'', PFloat (mode_bias P ''WALK''))])]"

text \<open>A segment with the fields the cost model reads.\<close>

definition leg :: "string \<Rightarrow> real \<Rightarrow> int \<Rightarrow> segment" where
  "leg m d c = \<lparr>mode = m, name = PStr [], distance_m = PInt 0, duration_min = d,
               crowd = c, best_car = None, poly = []\<rparr>"

definition example_prefs :: preferences where
  "example_prefs = \<lparr>crowd_weight = 2, max_crowd = 4, walk_limit_min = 15, mode_bias = (\<lambda>m. 0)\<rparr>"

definition example_segs :: "segment list" where
  "example_segs = [leg ''SUBWAY'' 10 2, leg ''WALK'' 5 1, leg ''BUS'' 8 3]"

definition no_parse :: parsers where
  "no_parse = \<lparr>str_float = (\<lambda>s. None), str_int = (\<lambda>s. None)\<rparr>"

text \<open>Three candidates, the last two with the same minimal score.\<close>

definition tie_routes :: "segment list list" where
  "tie_routes = [example_segs, [leg ''WALK'' 5 1], [leg ''BUS'' 5 1]]"

text \<open>The bias of one mode in a preferences dictionary.\<close>

definition bias_of :: "pydict \<Rightarrow> string \<Rightarrow> pyval option" where
  "bias_of p m = (case map_of p ''mode_bias'' of Some (PDict b) \<Rightarrow> map_of b m | _ \<Rightarrow> None)"

text \<open>The bias of one mode in the preferences a learn call returns.\<close>

definition learned_bias :: "parsers \<Rightarrow> pref_file \<Rightarrow> segment list \<Rightarrow> real \<Rightarrow> string \<Rightarrow> pyval option" where
  "learned_bias ps f segs lr m =
     (case learn_from_choice ps f segs lr of None \<Rightarrow> None | Some (p, f') \<Rightarrow> bias_of p m)"

text \<open>A world without crowd tables, on a Monday at 08:40.\<close>

definition plain_world :: world where
  "plain_world = \<lparr>sub_csv = NoFile, bus_csv = NoFile,
                  now = \<lparr>weekday = 0, hour = 8, minute = 40\<rparr>, rnd = (\<lambda>i. 0)\<rparr>"

section \<open>Inputs and views used in the statements\<close>

text \<open>The bias after one learn call, from the bias before it: nudged, then clipped.\<close>

definition step_bias :: "real \<Rightarrow> bool \<Rightarrow> real \<Rightarrow> real" where
  "step_bias lr u x = max (- 10) (min 10 (if u then x + lr else x - lr / 2))"

text \<open>
  Preferences as a learn call leaves them: distinct keys, an integer \<open>runs\<close>, and a
  \<open>mode_bias\<close> dictionary of numbers that holds the three modes as floats.
\<close>

definition settled :: "pydict \<Rightarrow> real \<Rightarrow> real \<Rightarrow> real \<Rightarrow> bool" where
  "settled p x y z \<longleftrightarrow>
     distinct (map fst p) \<and>
     (\<exists>b n. map_of p ''mode_bias'' = Some (PDict b) \<and> map_of p ''runs'' = Some (PInt n) \<and>
            (\<forall>v \<in> snd ` set b. py_num v \<noteq> None) \<and>
            map_of b ''SUBWAY'' = Some (PFloat x) \<and>
            map_of b ''BUS'' = Some (PFloat y) \<and>
            map_of b ''WALK'' = Some (PFloat z))"

text \<open>The bias of one mode in the loaded preferences.\<close>

definition loaded_bias :: "parsers \<Rightarrow> pref_file \<Rightarrow> string \<Rightarrow> pyval option" where
  "loaded_bias ps f m = (case load_prefs ps f of None \<Rightarrow> None | Some p \<Rightarrow> bias_of p m)"

text \<open>The bias of one mode after \<open>n + 1\<close> learn calls.\<close>

definition repeated_bias ::
  "nat \<Rightarrow> parsers \<Rightarrow> pref_file \<Rightarrow> segment list \<Rightarrow> real \<Rightarrow> string \<Rightarrow> pyval option" where
  "repeated_bias n ps f segs lr m =
     (case learn_repeat n ps f segs lr of None \<Rightarrow> None | Some (p, f') \<Rightarrow> bias_of p m)"

text \<open>The preferences after one learn call on a SUBWAY route, from the defaults, at rate 0.5.\<close>

definition learned_once :: pydict where
  "learned_once =
     [(''crowd_weight'', PFloat 2),
      (''max_crowd'', PInt 4),
      (''walk_limit_min'', PInt 15),
      (''mode_bias'', PDict [(''SUBWAY'', PFloat (1 / 2)), (''BUS'', PFloat (- (1 / 4))),
                             (''WALK'', PFloat (- (1 / 4)))]),
      (''runs'', PInt 1)]"

text \<open>A stored SUBWAY bias close to the upper bound.\<close>

definition near_cap_file :: pref_file where
  "near_cap_file =
     Content (PDict [(''mode_bias'',
       PDict [(''SUBWAY'', PFloat (39 / 4)), (''BUS'', PFloat 0), (''WALK'', PFloat 0)])])"

text \<open>Every value of \<open>mode_bias\<close> is a number in \<open>[-10, 10]\<close>.\<close>

definition bias_bounded :: "pydict \<Rightarrow> bool" where
  "bias_bounded p \<longleftrightarrow>
     (case map_of p ''mode_bias'' of
        Some (PDict b) \<Rightarrow>
          list_all (\<lambda>kv. case py_num (snd kv) of None \<Rightarrow> False
                         | Some x \<Rightarrow> - 10 \<le> x \<and> x \<le> 10) b
      | _ \<Rightarrow> False)"

text \<open>A stored object whose \<open>mode_bias\<close> names one mode only.\<close>

definition partial_bias_file :: pref_file where
  "partial_bias_file = Content (PDict [(''mode_bias'', PDict [(''SUBWAY'', PFloat 1)])])"

text \<open>A raw leg of a traffic type other than subway, bus and walk.\<close>

definition unknown_leg :: pyval where
  "unknown_leg = PDict [(''trafficType'', PInt 7), (''distance'', PInt 7800)]"

section \<open>Dictionary lemmas\<close>

lemma map_of_dict_set: "map_of (dict_set k v d) k' = (if k' = k then Some v else map_of d k')"
  by (induction d) auto

lemma dict_get_dict_set:
  "dict_get (dict_set k v d) k' dflt = (if k' = k then v else dict_get d k' dflt)"
  by (simp add: dict_get_def map_of_dict_set)

lemma load_prefs_Absent: "load_prefs ps Absent = Some DEFAULT_PREFS"
  by (simp add: load_prefs_def file_data_def py_or_def dict_merge_def migrate_bias_def
      DEFAULT_PREFS_def)

section \<open>The cost model\<close>

lemma merged_prefs_dict:
  "dict_get (dict_merge stored (prefs_dict P)) ''crowd_weight'' d1 = PFloat (crowd_weight P)"
  "dict_get (dict_merge stored (prefs_dict P)) ''max_crowd'' d2 = PInt (max_crowd P)"
  "dict_get (dict_merge stored (prefs_dict P)) ''walk_limit_min'' d3 = PFloat (walk_limit_min P)"
  "dict_get (dict_merge stored (prefs_dict P)) ''mode_bias'' d4 =
     PDict [(''SUBWAY'', PFloat (mode_bias P ''SUBWAY'')),
            (''BUS'', PFloat (mode_bias P ''BUS'')),
            (''WALK'', PFloat (mode_bias P ''WALK''))]"
  by (simp_all add: dict_merge_def prefs_dict_def dict_get_dict_set)

lemma score_loop_spec:
  assumes "dict_get prefs ''max_crowd'' (PInt 4) = PInt (max_crowd P)"
    and "\<forall>s \<in> set segs. mode s \<in> set allowed"
  shows "score_loop ps prefs
           (PDict [(''SUBWAY'', PFloat (mode_bias P ''SUBWAY'')),
                   (''BUS'', PFloat (mode_bias P ''BUS'')),
                   (''WALK'', PFloat (mode_bias P ''WALK''))])
           (crowd_weight P) segs acc = Some (spec_accumulate P segs acc)"
  using assms
proof (induction segs arbitrary: acc)
  case Nil
  then show ?case by simp
next
  case (Cons s segs)
  obtain c w where acc: "acc = (c, w)" by (cases acc)
  from Cons.prems(2) have m: "mode s = ''SUBWAY'' \<or> mode s = ''BUS'' \<or> mode s = ''WALK''"
    by (simp add: allowed_def)
  have step: "score_step ps prefs
           (PDict [(''SUBWAY'', PFloat (mode_bias P ''SUBWAY'')),
                   (''BUS'', PFloat (mode_bias P ''BUS'')),
                   (''WALK'', PFloat (mode_bias P ''WALK''))])
           (crowd_weight P) s (c, w) =
        Some (c + duration_min s - mode_bias P (mode s)
          + crowd_weight P * (real_of_int (crowd s) - 1)
          + (if crowd s > max_crowd P then 1000 else 0),
        if mode s = ''WALK'' then w + duration_min s else w)"
    using m Cons.prems(1) by (auto simp: score_step_def dict_get_def)
  show ?case
    using Cons.IH [OF Cons.prems(1)] Cons.prems(2) by (simp add: acc step)
qed

lemma score_route_spec:
  assumes "load_prefs ps f \<noteq> None"
    and "\<forall>s \<in> set segs. mode s \<in> set allowed"
  shows "score_route ps f segs (Some (prefs_dict P)) = Some (spec_score P segs)"
proof -
  from assms(1) obtain stored where st: "load_prefs ps f = Some stored" by auto
  have sp: "session_prefs ps f (Some (prefs_dict P)) = Some (dict_merge stored (prefs_dict P))"
    by (simp add: session_prefs_def st)
  show ?thesis
    by (simp add: score_route_def sp score_with_def merged_prefs_dict
        score_loop_spec [OF merged_prefs_dict(2) assms(2)] spec_score_def split: prod.splits)
qed

lemma example_modes: "\<forall>s \<in> set example_segs. mode s \<in> set allowed"
  by (simp add: example_segs_def leg_def allowed_def)

lemma example_spec_score:
  "spec_score example_prefs example_segs = 29"
  "spec_score (example_prefs\<lparr>max_crowd := 2\<rparr>) example_segs = 1029"
  by (simp_all add: spec_score_def example_prefs_def example_segs_def leg_def)

text \<open>
  C1: when the stored preferences load and the session preferences carry the four
  settings, \<open>score_route\<close> computes the accumulation of the specification: per segment,
  in order, the duration minus the bias of the mode plus \<open>crowd_weight * (crowd - 1)\<close>,
  plus 1000 for a segment whose crowd exceeds \<open>max_crowd\<close>, and 999 once when the summed
  WALK duration exceeds \<open>walk_limit_min\<close>. For the example of the specification (SUBWAY
  10 min crowd 2, WALK 5 min crowd 1, BUS 8 min crowd 3; crowd weight 2, crowd cap 4, walk
  limit 15, all biases 0) the score is 29, and with the crowd cap 2 it is 1029.
\<close>

theorem score_route_accumulates:
  "(load_prefs ps f \<noteq> None \<and> (\<forall>s \<in> set segs. mode s \<in> set allowed) \<longrightarrow>
      score_route ps f segs (Some (prefs_dict P)) = Some (spec_score P segs)) \<and>
   (load_prefs ps f \<noteq> None \<longrightarrow>
      score_route ps f example_segs (Some (prefs_dict example_prefs)) = Some 29 \<and>
      score_route ps f example_segs (Some (prefs_dict (example_prefs\<lparr>max_crowd := 2\<rparr>)))
        = Some 1029)"
  using score_route_spec [of ps f segs P]
    score_route_spec [OF _ example_modes, of ps f example_prefs]
    score_route_spec [OF _ example_modes, of ps f "example_prefs\<lparr>max_crowd := 2\<rparr>"]
  by (simp add: example_spec_score)

theorem score_route_accumulates_witness:
  "load_prefs no_parse Absent \<noteq> None \<and>
   score_route no_parse Absent example_segs (Some (prefs_dict example_prefs))
     = Some (spec_score example_prefs example_segs) \<and>
   score_route no_parse Absent example_segs (Some (prefs_dict example_prefs)) = Some 29 \<and>
   score_route no_parse Absent example_segs (Some (prefs_dict (example_prefs\<lparr>max_crowd := 2\<rparr>)))
     = Some 1029"
  using score_route_accumulates [of no_parse Absent example_segs example_prefs] example_modes
  by (simp add: load_prefs_Absent example_spec_score)

section \<open>Selection\<close>

lemma score_all_Some:
  "score_all ps f po routes = Some ss \<Longrightarrow>
     length ss = length routes \<and> (\<forall>k < length routes. score_route ps f (routes ! k) po = Some (ss ! k))"
proof (induction routes arbitrary: ss)
  case Nil
  then show ?case by simp
next
  case (Cons r rs)
  from Cons.prems obtain s ss' where s: "score_route ps f r po = Some s"
    and ss': "score_all ps f po rs = Some ss'" and eq: "ss = s # ss'"
    by (auto split: option.splits)
  from Cons.IH [OF ss'] show ?case
    by (auto simp: eq s nth_Cons split: nat.splits)
qed

lemma score_all_defined:
  "\<forall>r \<in> set routes. score_route ps f r po \<noteq> None \<Longrightarrow> \<exists>ss. score_all ps f po routes = Some ss"
  by (induction routes) auto

lemma scored_from_nth:
  "length ss = length rs \<Longrightarrow>
     length (scored_from n ss rs) = length rs \<and>
     (\<forall>k < length rs. scored_from n ss rs ! k = (ss ! k, n + int k, rs ! k))"
proof (induction n ss rs rule: scored_from.induct)
  case (1 n s ss r rs)
  then show ?case by (auto simp: nth_Cons split: nat.splits)
qed auto

lemma hd_sort_key_first_min:
  fixes f :: "'a \<Rightarrow> 'b::linorder"
  shows "xs \<noteq> [] \<Longrightarrow>
     \<exists>j < length xs. sort_key f xs \<noteq> [] \<and> hd (sort_key f xs) = xs ! j \<and>
        (\<forall>k < length xs. f (xs ! j) \<le> f (xs ! k)) \<and> (\<forall>k < j. f (xs ! j) < f (xs ! k))"
proof (induction xs)
  case Nil
  then show ?case by simp
next
  case (Cons x xs)
  show ?case
  proof (cases "xs = []")
    case True
    then show ?thesis by simp
  next
    case False
    from Cons.IH [OF False] obtain j where j: "j < length xs" "sort_key f xs \<noteq> []"
      "hd (sort_key f xs) = xs ! j" "\<forall>k < length xs. f (xs ! j) \<le> f (xs ! k)"
      "\<forall>k < j. f (xs ! j) < f (xs ! k)"
      by blast
    from j(2) obtain y ys where ys: "sort_key f xs = y # ys" by (cases "sort_key f xs") auto
    with j(3) have y: "y = xs ! j" by simp
    show ?thesis
    proof (cases "f x \<le> f y")
      case True
      have "\<forall>k < length (x # xs). f ((x # xs) ! 0) \<le> f ((x # xs) ! k)"
      proof (intro allI impI)
        fix k assume "k < length (x # xs)"
        then show "f ((x # xs) ! 0) \<le> f ((x # xs) ! k)"
          using True j(4) y by (cases k) (auto intro: order_trans)
      qed
      then show ?thesis using True ys
        by (intro exI [of _ 0]) simp
    next
      case False
      then have lt: "f y < f x" by simp
      have a: "\<forall>k < length (x # xs). f ((x # xs) ! Suc j) \<le> f ((x # xs) ! k)"
      proof (intro allI impI)
        fix k assume "k < length (x # xs)"
        then show "f ((x # xs) ! Suc j) \<le> f ((x # xs) ! k)"
          using lt j(4) y by (cases k) auto
      qed
      have b: "\<forall>k < Suc j. f ((x # xs) ! Suc j) < f ((x # xs) ! k)"
      proof (intro allI impI)
        fix k assume "k < Suc j"
        then show "f ((x # xs) ! Suc j) < f ((x # xs) ! k)"
          using lt j(5) y by (cases k) auto
      qed
      show ?thesis using False ys y j(1) a b
        by (intro exI [of _ "Suc j"]) simp
    qed
  qed
qed

text \<open>
  C3: for a non-empty candidate list whose candidates all have a score,
  \<open>choose_best_route\<close> returns the 1-based index \<open>j + 1\<close> together with the candidate at
  that position; the score of that candidate is at most the score of every candidate, and
  every candidate before it has a strictly greater score, so among the candidates with the
  minimal score the first one is returned.
\<close>

theorem choose_best_route_min:
  assumes "routes \<noteq> []"
    and "\<forall>r \<in> set routes. score_route ps f r po \<noteq> None"
  shows "\<exists>j s. j < length routes \<and>
           choose_best_route ps f routes po = Some (int j + 1, routes ! j) \<and>
           score_route ps f (routes ! j) po = Some s \<and>
           (\<forall>k < length routes. \<exists>s'. score_route ps f (routes ! k) po = Some s' \<and> s \<le> s') \<and>
           (\<forall>k < j. \<exists>s'. score_route ps f (routes ! k) po = Some s' \<and> s < s')"
proof -
  from score_all_defined [OF assms(2)] obtain ss where ss: "score_all ps f po routes = Some ss"
    by blast
  from score_all_Some [OF ss] have len: "length ss = length routes"
    and sc: "\<forall>k < length routes. score_route ps f (routes ! k) po = Some (ss ! k)" by auto
  let ?xs = "scored_from 1 ss routes"
  from scored_from_nth [OF len, of 1] have xl: "length ?xs = length routes"
    and xn: "\<forall>k < length routes. ?xs ! k = (ss ! k, 1 + int k, routes ! k)" by auto
  from assms(1) xl have ne: "?xs \<noteq> []" by auto
  from hd_sort_key_first_min [OF ne, of fst] obtain j where j: "j < length ?xs"
    "sort_key fst ?xs \<noteq> []" "hd (sort_key fst ?xs) = ?xs ! j"
    "\<forall>k < length ?xs. fst (?xs ! j) \<le> fst (?xs ! k)" "\<forall>k < j. fst (?xs ! j) < fst (?xs ! k)"
    by blast
  from j(1) xl have jl: "j < length routes" by simp
  from j(2,3) xn jl obtain rest where srt: "sort_key fst ?xs = (ss ! j, 1 + int j, routes ! j) # rest"
    by (cases "sort_key fst ?xs") auto
  have ch: "choose_best_route ps f routes po = Some (int j + 1, routes ! j)"
    using assms(1) by (simp add: choose_best_route_def ss srt)
  have le: "\<forall>k < length routes. ss ! j \<le> ss ! k"
    using j(4) xl xn jl by auto
  have lt: "\<forall>k < j. ss ! j < ss ! k"
    using j(5) xn jl by auto
  show ?thesis
    using jl ch sc le lt by (intro exI [of _ j] exI [of _ "ss ! j"]) auto
qed


lemma score_default:
  "score_route no_parse Absent example_segs None = Some 29"
  "score_route no_parse Absent [leg ''WALK'' 5 1] None = Some 5"
  "score_route no_parse Absent [leg ''BUS'' 5 1] None = Some 5"
  by (simp_all add: score_route_def session_prefs_def load_prefs_Absent score_with_def
      DEFAULT_PREFS_def dict_get_def score_step_def example_segs_def leg_def no_parse_def)

theorem choose_best_route_min_witness:
  "tie_routes \<noteq> [] \<and>
   choose_best_route no_parse Absent tie_routes None = Some (2, [leg ''WALK'' 5 1])"
proof -
  have ne: "tie_routes \<noteq> []" by (simp add: tie_routes_def)
  have df: "\<forall>r \<in> set tie_routes. score_route no_parse Absent r None \<noteq> None"
    by (simp add: tie_routes_def score_default)
  from choose_best_route_min [OF ne df] obtain j s where j: "j < length tie_routes"
    and ch: "choose_best_route no_parse Absent tie_routes None = Some (int j + 1, tie_routes ! j)"
    and sj: "score_route no_parse Absent (tie_routes ! j) None = Some s"
    and le: "\<forall>k < length tie_routes.
               \<exists>s'. score_route no_parse Absent (tie_routes ! k) None = Some s' \<and> s \<le> s'"
    and lt: "\<forall>k < j. \<exists>s'. score_route no_parse Absent (tie_routes ! k) None = Some s' \<and> s < s'"
    by blast
  from j have "j = 0 \<or> j = 1 \<or> j = 2" by (auto simp: tie_routes_def)
  then have "j = 1"
  proof (elim disjE)
    assume j0: "j = 0"
    from sj have "s = 29" by (simp add: j0 tie_routes_def score_default)
    moreover have "1 < length tie_routes" by (simp add: tie_routes_def)
    with le have "\<exists>s'. score_route no_parse Absent (tie_routes ! 1) None = Some s' \<and> s \<le> s'"
      by blast
    ultimately show ?thesis by (simp add: tie_routes_def score_default)
  next
    assume "j = 1" then show ?thesis .
  next
    assume j2: "j = 2"
    from sj have "s = 5" by (simp add: j2 tie_routes_def score_default)
    moreover have "1 < j" by (simp add: j2)
    with lt have "\<exists>s'. score_route no_parse Absent (tie_routes ! 1) None = Some s' \<and> s < s'"
      by blast
    ultimately show ?thesis by (simp add: tie_routes_def score_default)
  qed
  with ch ne show ?thesis by (simp add: tie_routes_def)
qed

section \<open>Empty candidate list\<close>

text \<open>
  C4: with no candidates, \<open>choose_best_route\<close> returns the index \<open>-1\<close> and an empty
  segment list, whatever the preferences file and the session preferences are; it does
  not raise.
\<close>

theorem choose_best_route_empty:
  "choose_best_route ps f [] po = Some (- 1, [])"
  by (simp add: choose_best_route_def)

section \<open>The crowd cap\<close>







section \<open>Merging and loading preferences\<close>

lemma keys_dict_set: "fst ` set (dict_set k v d) = insert k (fst ` set d)"
  by (induction d) auto

lemma vals_dict_set: "snd ` set (dict_set k v d) \<subseteq> insert v (snd ` set d)"
  by (induction d) auto

lemma distinct_dict_set: "distinct (map fst d) \<Longrightarrow> distinct (map fst (dict_set k v d))"
  by (induction d) (auto simp: keys_dict_set)

lemma distinct_fold_dict_set:
  "distinct (map fst a) \<Longrightarrow> distinct (map fst (fold (\<lambda>(k, v) d. dict_set k v d) b a))"
  by (induction b arbitrary: a) (auto simp: distinct_dict_set)

lemma distinct_dict_merge: "distinct (map fst a) \<Longrightarrow> distinct (map fst (dict_merge a b))"
  by (simp add: dict_merge_def distinct_fold_dict_set)

lemma map_of_fold_dict_set:
  "distinct (map fst b) \<Longrightarrow>
     map_of (fold (\<lambda>(k, v) d. dict_set k v d) b a) k
       = (case map_of b k of Some v \<Rightarrow> Some v | None \<Rightarrow> map_of a k)"
proof (induction b arbitrary: a)
  case Nil
  then show ?case by simp
next
  case (Cons kv b)
  obtain k' v' where kv: "kv = (k', v')" by (cases kv)
  from Cons.prems have d: "distinct (map fst b)" and nin: "k' \<notin> fst ` set b"
    by (auto simp: kv)
  from nin have "map_of b k' = None" by (simp add: map_of_eq_None_iff)
  then show ?case
    using Cons.IH [OF d, of "dict_set k' v' a"]
    by (auto simp: kv map_of_dict_set split: option.splits)
qed

lemma map_of_dict_merge:
  "distinct (map fst b) \<Longrightarrow>
     map_of (dict_merge a b) k = (case map_of b k of Some v \<Rightarrow> Some v | None \<Rightarrow> map_of a k)"
  by (simp add: dict_merge_def map_of_fold_dict_set)

lemma keys_fold_dict_set:
  "fst ` set (fold (\<lambda>(k, v) d. dict_set k v d) b a) = fst ` set a \<union> fst ` set b"
  by (induction b arbitrary: a) (simp_all add: keys_dict_set case_prod_beta)

lemma keys_dict_merge: "fst ` set (dict_merge a b) = fst ` set a \<union> fst ` set b"
  by (simp add: dict_merge_def keys_fold_dict_set)

lemma distinct_DEFAULT: "distinct (map fst DEFAULT_PREFS)"
  by (simp add: DEFAULT_PREFS_def)

lemma merged_has_mode_bias: "map_of (dict_merge DEFAULT_PREFS d) ''mode_bias'' \<noteq> None"
proof -
  have "''mode_bias'' \<in> fst ` set (dict_merge DEFAULT_PREFS d)"
    by (simp add: keys_dict_merge DEFAULT_PREFS_def)
  then show ?thesis by (simp add: map_of_eq_None_iff)
qed

lemma migrate_bias_merged:
  "migrate_bias ps (dict_merge DEFAULT_PREFS d) = Some (dict_merge DEFAULT_PREFS d)"
  by (simp add: migrate_bias_def merged_has_mode_bias)

lemma load_prefs_Some:
  "load_prefs ps f = Some p \<Longrightarrow>
     \<exists>d. py_or (file_data f) (PDict []) = PDict d \<and> p = dict_merge DEFAULT_PREFS d"
  by (auto simp: load_prefs_def migrate_bias_merged split: pyval.splits)

lemma load_prefs_distinct: "load_prefs ps f = Some p \<Longrightarrow> distinct (map fst p)"
  by (auto dest!: load_prefs_Some simp: distinct_dict_merge distinct_DEFAULT)

lemma load_prefs_Content:
  "d \<noteq> [] \<Longrightarrow> load_prefs ps (Content (PDict d)) = Some (dict_merge DEFAULT_PREFS d)"
  by (simp add: load_prefs_def file_data_def py_or_def migrate_bias_merged)

lemma map_of_fold_dict_set_absent:
  "k \<notin> fst ` set b \<Longrightarrow> map_of (fold (\<lambda>(k, v) d. dict_set k v d) b a) k = map_of a k"
  by (induction b arbitrary: a) (auto simp: map_of_dict_set)

lemma map_of_dict_merge_absent:
  "map_of b k = None \<Longrightarrow> map_of (dict_merge a b) k = map_of a k"
  by (simp add: dict_merge_def map_of_fold_dict_set_absent map_of_eq_None_iff)

lemma load_prefs_falsy:
  "\<not> truthy (file_data f) \<Longrightarrow> load_prefs ps f = Some DEFAULT_PREFS"
  by (simp add: load_prefs_def py_or_def dict_merge_def migrate_bias_def DEFAULT_PREFS_def)

lemma load_prefs_object:
  "load_prefs ps (Content (PDict d)) = Some (dict_merge DEFAULT_PREFS d)"
  by (cases "d = []") (simp_all add: load_prefs_def file_data_def py_or_def migrate_bias_merged)

lemma load_prefs_raises_on_list: "load_prefs ps (Content (PList [PInt 1])) = None"
  by (simp add: load_prefs_def file_data_def py_or_def)

text \<open>
  C7, as amended: for an absent or unreadable file and for a stored value that is falsy,
  \<open>load_prefs\<close> returns the defaults, with all three modes at bias 0.0. For a stored JSON
  object it returns the defaults overridden key by key: the result always has a
  \<open>mode_bias\<close> entry; when the object has no \<open>mode_bias\<close> key the three modes are at 0.0;
  a stored \<open>mode_bias\<close> replaces the default mapping as a whole.
\<close>

theorem load_prefs_shallow:
  "(f = Absent \<or> f = Corrupt \<or> (\<exists>v. f = Content v \<and> \<not> truthy v) \<longrightarrow>
      load_prefs ps f = Some DEFAULT_PREFS \<and>
      (\<forall>m \<in> set allowed. loaded_bias ps f m = Some (PFloat 0))) \<and>
   (f = Content (PDict d) \<longrightarrow>
      load_prefs ps f = Some (dict_merge DEFAULT_PREFS d) \<and>
      map_of (dict_merge DEFAULT_PREFS d) ''mode_bias'' \<noteq> None \<and>
      (map_of d ''mode_bias'' = None \<longrightarrow>
         (\<forall>m \<in> set allowed. loaded_bias ps f m = Some (PFloat 0))) \<and>
      (distinct (map fst d) \<longrightarrow>
         (\<forall>v. map_of d ''mode_bias'' = Some v \<longrightarrow>
              map_of (dict_merge DEFAULT_PREFS d) ''mode_bias'' = Some v)))"
proof -
  have dflt: "\<forall>m \<in> set allowed. bias_of DEFAULT_PREFS m = Some (PFloat 0)"
    by (simp add: allowed_def bias_of_def DEFAULT_PREFS_def)
  have a: "f = Absent \<or> f = Corrupt \<or> (\<exists>v. f = Content v \<and> \<not> truthy v) \<Longrightarrow>
      load_prefs ps f = Some DEFAULT_PREFS"
    by (rule load_prefs_falsy) (auto simp: file_data_def)
  have b: "map_of d ''mode_bias'' = None \<Longrightarrow>
      bias_of (dict_merge DEFAULT_PREFS d) m = bias_of DEFAULT_PREFS m" for m
    by (simp add: bias_of_def map_of_dict_merge_absent)
  have c: "distinct (map fst d) \<Longrightarrow> map_of d ''mode_bias'' = Some v \<Longrightarrow>
      map_of (dict_merge DEFAULT_PREFS d) ''mode_bias'' = Some v" for v
    by (simp add: map_of_dict_merge)
  show ?thesis
    using a dflt b c merged_has_mode_bias [of d]
    by (auto simp: loaded_bias_def load_prefs_object)
qed

theorem load_prefs_shallow_witness:
  "load_prefs no_parse Corrupt = Some DEFAULT_PREFS \<and>
   loaded_bias no_parse Corrupt ''BUS'' = Some (PFloat 0) \<and>
   load_prefs no_parse (Content (PDict [(''runs'', PInt 7)]))
     = Some (dict_merge DEFAULT_PREFS [(''runs'', PInt 7)]) \<and>
   loaded_bias no_parse (Content (PDict [(''runs'', PInt 7)])) ''BUS'' = Some (PFloat 0) \<and>
   map_of (dict_merge DEFAULT_PREFS [(''mode_bias'', PDict [(''SUBWAY'', PFloat 1)])]) ''mode_bias''
     = Some (PDict [(''SUBWAY'', PFloat 1)])"
  using load_prefs_shallow [of Corrupt no_parse "[]"]
    load_prefs_shallow [of "Content (PDict [(''runs'', PInt 7)])" no_parse "[(''runs'', PInt 7)]"]
    load_prefs_shallow [of "Content (PDict [(''mode_bias'', PDict [(''SUBWAY'', PFloat 1)])])"
      no_parse "[(''mode_bias'', PDict [(''SUBWAY'', PFloat 1)])]"]
  by (simp add: allowed_def)

text \<open>
  C7 as stated fails on partial data: a stored object whose \<open>mode_bias\<close> holds SUBWAY only
  loads to preferences whose \<open>mode_bias\<close> has no entry for BUS and none for WALK.
\<close>

theorem load_prefs_partial_bias_counterexample:
  "load_prefs no_parse partial_bias_file
     = Some [(''crowd_weight'', PFloat 2), (''max_crowd'', PInt 4), (''walk_limit_min'', PInt 15),
             (''mode_bias'', PDict [(''SUBWAY'', PFloat 1)]), (''runs'', PInt 0)] \<and>
   loaded_bias no_parse partial_bias_file ''BUS'' = None \<and>
   loaded_bias no_parse partial_bias_file ''WALK'' = None"
  by (simp add: loaded_bias_def partial_bias_file_def load_prefs_def file_data_def py_or_def
      dict_merge_def DEFAULT_PREFS_def migrate_bias_def bias_of_def)

section \<open>Learning\<close>

lemma clip_range:
  "clip v = Some v' \<Longrightarrow> \<exists>x. py_num v' = Some x \<and> - 10 \<le> x \<and> x \<le> 10"
  by (auto simp: clip_def split: option.splits if_splits)

lemma clip_PFloat: "clip (PFloat x) = Some (PFloat (max (- 10) (min 10 x)))"
  by (simp add: clip_def max_def min_def)

lemma clip_defined: "py_num v \<noteq> None \<Longrightarrow> clip v \<noteq> None"
  by (auto simp: clip_def)

lemma clip_all_range:
  "clip_all b = Some b' \<Longrightarrow> \<forall>v \<in> snd ` set b'. \<exists>x. py_num v = Some x \<and> - 10 \<le> x \<and> x \<le> 10"
proof (induction b arbitrary: b')
  case Nil
  then show ?case by simp
next
  case (Cons kv b)
  from Cons.prems obtain v' r' where c: "clip (snd kv) = Some v'" and r: "clip_all b = Some r'"
    and eq: "b' = (fst kv, v') # r'"
    by (auto split: option.splits)
  from clip_range [OF c] Cons.IH [OF r] show ?case by (auto simp: eq)
qed

lemma clip_all_map_of:
  "clip_all b = Some b' \<Longrightarrow>
     map_of b' k = (case map_of b k of None \<Rightarrow> None | Some v \<Rightarrow> clip v)"
proof (induction b arbitrary: b')
  case Nil
  then show ?case by simp
next
  case (Cons kv b)
  from Cons.prems obtain v' r' where c: "clip (snd kv) = Some v'" and r: "clip_all b = Some r'"
    and eq: "b' = (fst kv, v') # r'"
    by (auto split: option.splits)
  from Cons.IH [OF r] c show ?case by (cases kv) (auto simp: eq)
qed

lemma clip_all_defined:
  "\<forall>v \<in> snd ` set b. py_num v \<noteq> None \<Longrightarrow> \<exists>b'. clip_all b = Some b'"
proof (induction b)
  case Nil
  then show ?case by simp
next
  case (Cons kv b)
  from Cons.prems have "clip (snd kv) \<noteq> None" by (intro clip_defined) simp
  moreover from Cons have "\<exists>b'. clip_all b = Some b'" by simp
  ultimately show ?case by auto
qed

lemma nudge_Some:
  "nudge ps used lr m b = Some b' \<Longrightarrow>
     \<exists>x. py_float ps (dict_get b m (PFloat 0)) = Some x \<and>
         b' = dict_set m (PFloat (if m \<in> set used then x + lr else x - lr / 2)) b"
  by (auto simp: nudge_def split: option.splits)

lemma learn_from_choice_Some:
  assumes "learn_from_choice ps f segs lr = Some (p', f')"
  shows "\<exists>prefs bias b4 n x y z.
           load_prefs ps f = Some prefs \<and>
           py_dict (dict_get prefs ''mode_bias''
              (PDict [(''SUBWAY'', PFloat 0), (''BUS'', PFloat 0), (''WALK'', PFloat 0)])) = Some bias \<and>
           py_float ps (dict_get bias ''SUBWAY'' (PFloat 0)) = Some x \<and>
           py_float ps (dict_get bias ''BUS'' (PFloat 0)) = Some y \<and>
           py_float ps (dict_get bias ''WALK'' (PFloat 0)) = Some z \<and>
           py_int ps (dict_get prefs ''runs'' (PInt 0)) = Some n \<and>
           p' = dict_set ''runs'' (PInt (n + 1)) (dict_set ''mode_bias'' (PDict b4) prefs) \<and>
           f' = Content (PDict p') \<and>
           (\<forall>v \<in> snd ` set b4. \<exists>r. py_num v = Some r \<and> - 10 \<le> r \<and> r \<le> 10) \<and>
           map_of b4 ''SUBWAY'' = Some (PFloat (step_bias lr (''SUBWAY'' \<in> mode ` set segs) x)) \<and>
           map_of b4 ''BUS'' = Some (PFloat (step_bias lr (''BUS'' \<in> mode ` set segs) y)) \<and>
           map_of b4 ''WALK'' = Some (PFloat (step_bias lr (''WALK'' \<in> mode ` set segs) z))"
proof -
  let ?used = "map mode segs"
  from assms obtain prefs bias b1 b2 b3 b4 n where
    ld: "load_prefs ps f = Some prefs"
    and pd: "py_dict (dict_get prefs ''mode_bias''
              (PDict [(''SUBWAY'', PFloat 0), (''BUS'', PFloat 0), (''WALK'', PFloat 0)])) = Some bias"
    and n1: "nudge ps ?used lr ''SUBWAY'' bias = Some b1"
    and n2: "nudge ps ?used lr ''BUS'' b1 = Some b2"
    and n3: "nudge ps ?used lr ''WALK'' b2 = Some b3"
    and cl: "clip_all b3 = Some b4"
    and rn: "py_int ps (dict_get prefs ''runs'' (PInt 0)) = Some n"
    and p': "p' = dict_set ''runs'' (PInt (n + 1)) (dict_set ''mode_bias'' (PDict b4) prefs)"
    and f': "f' = Content (PDict p')"
    by (auto simp: learn_from_choice_def save_prefs_def Let_def split: option.splits)
  from nudge_Some [OF n1] obtain x where x: "py_float ps (dict_get bias ''SUBWAY'' (PFloat 0)) = Some x"
    and b1: "b1 = dict_set ''SUBWAY'' (PFloat (if ''SUBWAY'' \<in> set ?used then x + lr else x - lr / 2)) bias"
    by blast
  from nudge_Some [OF n2] obtain y where y: "py_float ps (dict_get b1 ''BUS'' (PFloat 0)) = Some y"
    and b2: "b2 = dict_set ''BUS'' (PFloat (if ''BUS'' \<in> set ?used then y + lr else y - lr / 2)) b1"
    by blast
  from nudge_Some [OF n3] obtain z where z: "py_float ps (dict_get b2 ''WALK'' (PFloat 0)) = Some z"
    and b3: "b3 = dict_set ''WALK'' (PFloat (if ''WALK'' \<in> set ?used then z + lr else z - lr / 2)) b2"
    by blast
  from y have y': "py_float ps (dict_get bias ''BUS'' (PFloat 0)) = Some y"
    by (simp add: b1 dict_get_dict_set)
  from z have z': "py_float ps (dict_get bias ''WALK'' (PFloat 0)) = Some z"
    by (simp add: b2 b1 dict_get_dict_set)
  have m1: "map_of b4 ''SUBWAY'' = Some (PFloat (step_bias lr (''SUBWAY'' \<in> mode ` set segs) x))"
    by (simp add: clip_all_map_of [OF cl] b3 b2 b1 map_of_dict_set clip_PFloat step_bias_def)
  have m2: "map_of b4 ''BUS'' = Some (PFloat (step_bias lr (''BUS'' \<in> mode ` set segs) y))"
    by (simp add: clip_all_map_of [OF cl] b3 b2 b1 map_of_dict_set clip_PFloat step_bias_def)
  have m3: "map_of b4 ''WALK'' = Some (PFloat (step_bias lr (''WALK'' \<in> mode ` set segs) z))"
    by (simp add: clip_all_map_of [OF cl] b3 b2 b1 map_of_dict_set clip_PFloat step_bias_def)
  from ld pd x y' z' rn p' f' clip_all_range [OF cl] m1 m2 m3 show ?thesis
    by blast
qed

lemma step_bias_range: "- 10 \<le> step_bias lr u x \<and> step_bias lr u x \<le> 10"
  by (simp add: step_bias_def)

lemma learn_first:
  assumes "learn_from_choice ps f segs lr = Some (p', f')"
  shows "\<exists>x y z. f' = Content (PDict p') \<and> settled p' x y z \<and>
           - 10 \<le> x \<and> x \<le> 10 \<and> - 10 \<le> y \<and> y \<le> 10 \<and> - 10 \<le> z \<and> z \<le> 10"
proof -
  from learn_from_choice_Some [OF assms] obtain prefs bias b4 n x y z where
    ld: "load_prefs ps f = Some prefs"
    and p': "p' = dict_set ''runs'' (PInt (n + 1)) (dict_set ''mode_bias'' (PDict b4) prefs)"
    and f': "f' = Content (PDict p')"
    and rg: "\<forall>v \<in> snd ` set b4. \<exists>r. py_num v = Some r \<and> - 10 \<le> r \<and> r \<le> 10"
    and m1: "map_of b4 ''SUBWAY'' = Some (PFloat (step_bias lr (''SUBWAY'' \<in> mode ` set segs) x))"
    and m2: "map_of b4 ''BUS'' = Some (PFloat (step_bias lr (''BUS'' \<in> mode ` set segs) y))"
    and m3: "map_of b4 ''WALK'' = Some (PFloat (step_bias lr (''WALK'' \<in> mode ` set segs) z))"
    by (elim exE conjE)
  have d: "distinct (map fst p')"
    by (simp add: p' distinct_dict_set load_prefs_distinct [OF ld])
  have num: "\<forall>v \<in> snd ` set b4. py_num v \<noteq> None"
  proof
    fix v assume "v \<in> snd ` set b4"
    with rg obtain r where "py_num v = Some r" by blast
    then show "py_num v \<noteq> None" by simp
  qed
  have st: "settled p' (step_bias lr (''SUBWAY'' \<in> mode ` set segs) x)
          (step_bias lr (''BUS'' \<in> mode ` set segs) y)
          (step_bias lr (''WALK'' \<in> mode ` set segs) z)"
    unfolding settled_def using d num m1 m2 m3
    by (simp add: p' map_of_dict_set)
  show ?thesis
    by (rule exI [of _ "step_bias lr (''SUBWAY'' \<in> mode ` set segs) x"],
        rule exI [of _ "step_bias lr (''BUS'' \<in> mode ` set segs) y"],
        rule exI [of _ "step_bias lr (''WALK'' \<in> mode ` set segs) z"])
      (simp add: f' st step_bias_range)
qed

lemma learn_settled:
  assumes "settled p x y z"
  shows "\<exists>p'. learn_from_choice ps (Content (PDict p)) segs lr = Some (p', Content (PDict p')) \<and>
           settled p' (step_bias lr (''SUBWAY'' \<in> mode ` set segs) x)
             (step_bias lr (''BUS'' \<in> mode ` set segs) y)
             (step_bias lr (''WALK'' \<in> mode ` set segs) z) \<and>
           bias_of p' ''SUBWAY'' = Some (PFloat (step_bias lr (''SUBWAY'' \<in> mode ` set segs) x)) \<and>
           bias_of p' ''BUS'' = Some (PFloat (step_bias lr (''BUS'' \<in> mode ` set segs) y)) \<and>
           bias_of p' ''WALK'' = Some (PFloat (step_bias lr (''WALK'' \<in> mode ` set segs) z))"
proof -
  let ?f = "Content (PDict p)"
  let ?q = "dict_merge DEFAULT_PREFS p"
  let ?used = "map mode segs"
  from assms obtain b n where d: "distinct (map fst p)"
    and mb: "map_of p ''mode_bias'' = Some (PDict b)" and rn: "map_of p ''runs'' = Some (PInt n)"
    and num: "\<forall>v \<in> snd ` set b. py_num v \<noteq> None"
    and hx: "map_of b ''SUBWAY'' = Some (PFloat x)"
    and hy: "map_of b ''BUS'' = Some (PFloat y)"
    and hz: "map_of b ''WALK'' = Some (PFloat z)"
    by (auto simp: settled_def)
  from mb have ne: "p \<noteq> []" by auto
  have ld: "load_prefs ps ?f = Some ?q" by (rule load_prefs_Content [OF ne])
  have qb: "dict_get ?q ''mode_bias'' dflt = PDict b" for dflt
    by (simp add: dict_get_def map_of_dict_merge [OF d] mb)
  have qr: "dict_get ?q ''runs'' dflt = PInt n" for dflt
    by (simp add: dict_get_def map_of_dict_merge [OF d] rn)
  define x' where "x' = (if ''SUBWAY'' \<in> set ?used then x + lr else x - lr / 2)"
  define y' where "y' = (if ''BUS'' \<in> set ?used then y + lr else y - lr / 2)"
  define z' where "z' = (if ''WALK'' \<in> set ?used then z + lr else z - lr / 2)"
  let ?b1 = "dict_set ''SUBWAY'' (PFloat x') b"
  let ?b2 = "dict_set ''BUS'' (PFloat y') ?b1"
  let ?b3 = "dict_set ''WALK'' (PFloat z') ?b2"
  have n1: "nudge ps ?used lr ''SUBWAY'' b = Some ?b1"
    by (simp add: nudge_def dict_get_def hx x'_def)
  have n2: "nudge ps ?used lr ''BUS'' ?b1 = Some ?b2"
    by (simp add: nudge_def dict_get_def map_of_dict_set hy y'_def)
  have n3: "nudge ps ?used lr ''WALK'' ?b2 = Some ?b3"
    by (simp add: nudge_def dict_get_def map_of_dict_set hz z'_def)
  have "\<forall>v \<in> snd ` set ?b3. py_num v \<noteq> None"
  proof
    fix v assume v3: "v \<in> snd ` set ?b3"
    from v3 vals_dict_set [of "''WALK''" "PFloat z'" ?b2]
    have "v = PFloat z' \<or> v \<in> snd ` set ?b2" by auto
    moreover from vals_dict_set [of "''BUS''" "PFloat y'" ?b1]
    have "v \<in> snd ` set ?b2 \<Longrightarrow> v = PFloat y' \<or> v \<in> snd ` set ?b1" by auto
    moreover from vals_dict_set [of "''SUBWAY''" "PFloat x'" b]
    have "v \<in> snd ` set ?b1 \<Longrightarrow> v = PFloat x' \<or> v \<in> snd ` set b" by auto
    ultimately have "v = PFloat z' \<or> v = PFloat y' \<or> v = PFloat x' \<or> v \<in> snd ` set b"
      by blast
    with num show "py_num v \<noteq> None" by auto
  qed
  from clip_all_defined [OF this] obtain b4 where cl: "clip_all ?b3 = Some b4" by blast
  let ?p' = "dict_set ''runs'' (PInt (n + 1)) (dict_set ''mode_bias'' (PDict b4) ?q)"
  have call: "learn_from_choice ps ?f segs lr = Some (?p', Content (PDict ?p'))"
    by (simp add: learn_from_choice_def ld qb qr n1 n2 n3 cl save_prefs_def Let_def)
  have dq: "distinct (map fst ?p')"
    by (simp add: distinct_dict_set load_prefs_distinct [OF ld])
  have num4: "\<forall>v \<in> snd ` set b4. py_num v \<noteq> None"
  proof
    fix v assume "v \<in> snd ` set b4"
    with clip_all_range [OF cl] obtain r where "py_num v = Some r" by blast
    then show "py_num v \<noteq> None" by simp
  qed
  have m1: "map_of b4 ''SUBWAY'' = Some (PFloat (step_bias lr (''SUBWAY'' \<in> mode ` set segs) x))"
    by (simp add: clip_all_map_of [OF cl] map_of_dict_set clip_PFloat step_bias_def x'_def)
  have m2: "map_of b4 ''BUS'' = Some (PFloat (step_bias lr (''BUS'' \<in> mode ` set segs) y))"
    by (simp add: clip_all_map_of [OF cl] map_of_dict_set clip_PFloat step_bias_def y'_def)
  have m3: "map_of b4 ''WALK'' = Some (PFloat (step_bias lr (''WALK'' \<in> mode ` set segs) z))"
    by (simp add: clip_all_map_of [OF cl] map_of_dict_set clip_PFloat step_bias_def z'_def)
  have st: "settled ?p' (step_bias lr (''SUBWAY'' \<in> mode ` set segs) x)
             (step_bias lr (''BUS'' \<in> mode ` set segs) y) (step_bias lr (''WALK'' \<in> mode ` set segs) z)"
    unfolding settled_def using dq num4 m1 m2 m3 by (simp add: map_of_dict_set)
  have bo: "bias_of ?p' m = map_of b4 m" for m
    by (simp add: bias_of_def map_of_dict_set)
  show ?thesis
    by (rule exI [of _ ?p']) (simp add: call st bo m1 m2 m3)
qed

lemma settled_bias_of:
  "settled p x y z \<Longrightarrow>
     bias_of p ''SUBWAY'' = Some (PFloat x) \<and> bias_of p ''BUS'' = Some (PFloat y) \<and>
     bias_of p ''WALK'' = Some (PFloat z)"
  by (auto simp: settled_def bias_of_def)

lemma learn_repeat_settled:
  assumes "learn_from_choice ps f segs lr = Some (p0, f0)" and "settled p0 x y z"
  shows "\<exists>p. learn_repeat n ps f segs lr = Some (p, Content (PDict p)) \<and>
           settled p ((step_bias lr (''SUBWAY'' \<in> mode ` set segs) ^^ n) x)
             ((step_bias lr (''BUS'' \<in> mode ` set segs) ^^ n) y)
             ((step_bias lr (''WALK'' \<in> mode ` set segs) ^^ n) z)"
proof (induction n)
  case 0
  from learn_first [OF assms(1)] assms(2) show ?case
    using assms(1) by auto
next
  case (Suc n)
  then obtain p where p: "learn_repeat n ps f segs lr = Some (p, Content (PDict p))"
    and st: "settled p ((step_bias lr (''SUBWAY'' \<in> mode ` set segs) ^^ n) x)
             ((step_bias lr (''BUS'' \<in> mode ` set segs) ^^ n) y)
             ((step_bias lr (''WALK'' \<in> mode ` set segs) ^^ n) z)"
    by blast
  from learn_settled [OF st, of ps segs lr] show ?case
    by (auto simp: p)
qed

lemma step_up_one:
  assumes "0 < lr" and "0 \<le> t" and "- 10 \<le> x" and "x \<le> 10"
  shows "step_bias lr True (min 10 (x + t)) = min 10 (x + (t + lr))"
proof (cases "x + t < 10")
  case True
  with assms show ?thesis by (auto simp: step_bias_def min_def max_def)
next
  case False
  with assms show ?thesis by (auto simp: step_bias_def min_def max_def)
qed

lemma step_down_one:
  assumes "0 < lr" and "0 \<le> t" and "- 10 \<le> x" and "x \<le> 10"
  shows "step_bias lr False (max (- 10) (x - t)) = max (- 10) (x - (t + lr / 2))"
proof (cases "- 10 < x - t")
  case True
  with assms show ?thesis by (auto simp: step_bias_def min_def max_def)
next
  case False
  with assms show ?thesis by (auto simp: step_bias_def min_def max_def)
qed

lemma step_up_iter:
  assumes "0 < lr" and "- 10 \<le> x" and "x \<le> 10"
  shows "(step_bias lr True ^^ n) x = min 10 (x + real n * lr)"
proof (induction n)
  case 0
  with assms show ?case by simp
next
  case (Suc n)
  have nn: "0 \<le> real n * lr" using assms(1) by simp
  have "(step_bias lr True ^^ Suc n) x = step_bias lr True (min 10 (x + real n * lr))"
    using Suc by simp
  also have "\<dots> = min 10 (x + (real n * lr + lr))"
    by (rule step_up_one [OF assms(1) nn assms(2,3)])
  also have "real n * lr + lr = real (Suc n) * lr"
    by (simp add: algebra_simps)
  finally show ?case .
qed

lemma step_down_iter:
  assumes "0 < lr" and "- 10 \<le> x" and "x \<le> 10"
  shows "(step_bias lr False ^^ n) x = max (- 10) (x - real n * (lr / 2))"
proof (induction n)
  case 0
  with assms show ?case by simp
next
  case (Suc n)
  have nn: "0 \<le> real n * (lr / 2)" using assms(1) by simp
  have "(step_bias lr False ^^ Suc n) x = step_bias lr False (max (- 10) (x - real n * (lr / 2)))"
    using Suc by simp
  also have "\<dots> = max (- 10) (x - (real n * (lr / 2) + lr / 2))"
    by (rule step_down_one [OF assms(1) nn assms(2,3)])
  also have "real n * (lr / 2) + lr / 2 = real (Suc n) * (lr / 2)"
    by (simp add: algebra_simps)
  finally show ?case .
qed

lemma step_iter_limit:
  assumes "0 < lr" and "- 10 \<le> x" and "x \<le> 10" and "nat \<lceil>40 / lr\<rceil> \<le> n"
  shows "(step_bias lr u ^^ n) x = (if u then 10 else - 10)"
proof -
  from assms(4) have "40 / lr \<le> real n"
    by (meson le_nat_iff nat_ceiling_le_eq of_nat_0_le_iff order_trans real_nat_ceiling_ge)
  with assms(1) have big: "40 \<le> real n * lr"
    by (simp add: pos_divide_le_eq)
  show ?thesis
  proof (cases u)
    case True
    with big assms show ?thesis by (simp add: step_up_iter min_def)
  next
    case False
    with big assms show ?thesis by (simp add: step_down_iter max_def)
  qed
qed

lemma mode_leg: "mode (leg m d c) = m"
  by (simp add: leg_def)

lemma learn_eval:
  "learn_from_choice no_parse Absent [leg ''SUBWAY'' 10 2] (1 / 2)
     = Some (learned_once, Content (PDict learned_once))"
  by (simp add: learn_from_choice_def load_prefs_Absent DEFAULT_PREFS_def dict_get_def
      nudge_def clip_def leg_def save_prefs_def learned_once_def no_parse_def Let_def)

text \<open>
  C10: the preferences a learn call returns differ from the loaded ones only under the
  keys \<open>mode_bias\<close> and \<open>runs\<close>; every other key (\<open>crowd_weight\<close>, \<open>max_crowd\<close>,
  \<open>walk_limit_min\<close> and any other stored key) keeps its value, and the returned
  preferences are the ones saved.
\<close>

theorem learn_frame:
  assumes "load_prefs ps f = Some prefs"
    and "learn_from_choice ps f segs lr = Some (p', f')"
  shows "f' = Content (PDict p') \<and>
         (\<forall>k. k \<noteq> ''mode_bias'' \<and> k \<noteq> ''runs'' \<longrightarrow> map_of p' k = map_of prefs k)"
proof -
  from learn_from_choice_Some [OF assms(2)] assms(1) obtain b4 n where
    "p' = dict_set ''runs'' (PInt (n + 1)) (dict_set ''mode_bias'' (PDict b4) prefs)"
    and "f' = Content (PDict p')"
    by auto
  then show ?thesis by (simp add: map_of_dict_set)
qed

theorem learn_frame_witness:
  "load_prefs no_parse Absent = Some DEFAULT_PREFS \<and>
   learn_from_choice no_parse Absent [leg ''SUBWAY'' 10 2] (1 / 2)
     = Some (learned_once, Content (PDict learned_once)) \<and>
   map_of learned_once ''crowd_weight'' = map_of DEFAULT_PREFS ''crowd_weight'' \<and>
   map_of learned_once ''max_crowd'' = map_of DEFAULT_PREFS ''max_crowd'' \<and>
   map_of learned_once ''walk_limit_min'' = map_of DEFAULT_PREFS ''walk_limit_min''"
  using learn_frame [OF load_prefs_Absent learn_eval] learn_eval
  by (simp add: load_prefs_Absent)

text \<open>
  C6, as amended: one learn call sets the bias of each of the three modes to
  \<open>max (-10) (min 10 (x + lr))\<close> when the mode occurs in the chosen segments and to
  \<open>max (-10) (min 10 (x - lr/2))\<close> when it does not, where \<open>x\<close> is the previous bias; the
  change is exactly \<open>+lr\<close>, respectively \<open>-lr/2\<close>, whenever the updated value lies within
  \<open>[-10, 10]\<close>.
\<close>

theorem learn_bias_update:
  assumes "load_prefs ps f = Some prefs"
    and "map_of prefs ''mode_bias'' = Some (PDict b)"
    and "py_float ps (dict_get b m (PFloat 0)) = Some x"
    and "m \<in> set allowed"
    and "learn_from_choice ps f segs lr = Some (p', f')"
  shows "bias_of p' m = Some (PFloat (max (- 10) (min 10
             (if m \<in> mode ` set segs then x + lr else x - lr / 2)))) \<and>
         (m \<in> mode ` set segs \<and> - 10 \<le> x + lr \<and> x + lr \<le> 10 \<longrightarrow>
            bias_of p' m = Some (PFloat (x + lr))) \<and>
         (m \<notin> mode ` set segs \<and> - 10 \<le> x - lr / 2 \<and> x - lr / 2 \<le> 10 \<longrightarrow>
            bias_of p' m = Some (PFloat (x - lr / 2)))"
proof -
  from learn_from_choice_Some [OF assms(5)] assms(1) obtain bias b4 n xs ys zs where
    pd: "py_dict (dict_get prefs ''mode_bias''
              (PDict [(''SUBWAY'', PFloat 0), (''BUS'', PFloat 0), (''WALK'', PFloat 0)])) = Some bias"
    and xs: "py_float ps (dict_get bias ''SUBWAY'' (PFloat 0)) = Some xs"
    and ys: "py_float ps (dict_get bias ''BUS'' (PFloat 0)) = Some ys"
    and zs: "py_float ps (dict_get bias ''WALK'' (PFloat 0)) = Some zs"
    and p': "p' = dict_set ''runs'' (PInt (n + 1)) (dict_set ''mode_bias'' (PDict b4) prefs)"
    and m1: "map_of b4 ''SUBWAY'' = Some (PFloat (step_bias lr (''SUBWAY'' \<in> mode ` set segs) xs))"
    and m2: "map_of b4 ''BUS'' = Some (PFloat (step_bias lr (''BUS'' \<in> mode ` set segs) ys))"
    and m3: "map_of b4 ''WALK'' = Some (PFloat (step_bias lr (''WALK'' \<in> mode ` set segs) zs))"
    by auto
  from pd assms(2) have bb: "bias = b" by (simp add: dict_get_def)
  have bo: "bias_of p' k = map_of b4 k" for k
    by (simp add: bias_of_def p' map_of_dict_set)
  from assms(4) have "m = ''SUBWAY'' \<or> m = ''BUS'' \<or> m = ''WALK''"
    by (simp add: allowed_def)
  then have main: "bias_of p' m = Some (PFloat (step_bias lr (m \<in> mode ` set segs) x))"
    using assms(3) xs ys zs m1 m2 m3 by (auto simp: bo bb)
  show ?thesis
    by (auto simp: main step_bias_def)
qed

theorem learn_bias_update_witness:
  "learned_bias no_parse Absent [leg ''SUBWAY'' 10 2] (1 / 2) ''SUBWAY'' = Some (PFloat (0 + 1 / 2)) \<and>
   learned_bias no_parse Absent [leg ''SUBWAY'' 10 2] (1 / 2) ''BUS'' = Some (PFloat (0 - (1 / 2) / 2)) \<and>
   learned_bias no_parse Absent [leg ''SUBWAY'' 10 2] (1 / 2) ''WALK'' = Some (PFloat (0 - (1 / 2) / 2))"
proof -
  have mb: "map_of DEFAULT_PREFS ''mode_bias''
              = Some (PDict [(''SUBWAY'', PFloat 0), (''BUS'', PFloat 0), (''WALK'', PFloat 0)])"
    by (simp add: DEFAULT_PREFS_def)
  have fl: "py_float no_parse (dict_get [(''SUBWAY'', PFloat 0), (''BUS'', PFloat 0), (''WALK'', PFloat 0)] m (PFloat 0)) = Some 0" for m
    by (simp add: dict_get_def)
  have a: "''SUBWAY'' \<in> set allowed" "''BUS'' \<in> set allowed" "''WALK'' \<in> set allowed"
    by (simp_all add: allowed_def)
  show ?thesis
    using learn_bias_update [OF load_prefs_Absent mb fl a(1) learn_eval]
      learn_bias_update [OF load_prefs_Absent mb fl a(2) learn_eval]
      learn_bias_update [OF load_prefs_Absent mb fl a(3) learn_eval]
    by (simp add: learned_bias_def learn_eval mode_leg)
qed

text \<open>
  C6 as stated fails at the clamp: with a stored SUBWAY bias of 9.75, a learn call with
  \<open>lr = 0.5\<close> on a SUBWAY route returns the bias 10, not 10.25.
\<close>

theorem learn_exact_counterexample:
  "loaded_bias no_parse near_cap_file ''SUBWAY'' = Some (PFloat (39 / 4)) \<and>
   learned_bias no_parse near_cap_file [leg ''SUBWAY'' 10 2] (1 / 2) ''SUBWAY'' = Some (PFloat 10) \<and>
   learned_bias no_parse near_cap_file [leg ''SUBWAY'' 10 2] (1 / 2) ''SUBWAY''
     \<noteq> Some (PFloat (39 / 4 + 1 / 2))"
  by (simp add: loaded_bias_def learned_bias_def near_cap_file_def load_prefs_def file_data_def
      py_or_def dict_merge_def DEFAULT_PREFS_def migrate_bias_def bias_of_def
      learn_from_choice_def dict_get_def nudge_def clip_def leg_def save_prefs_def no_parse_def
      Let_def)

lemma learn_bias_bounded:
  assumes "learn_from_choice ps f segs lr = Some (p', f')"
  shows "bias_bounded p'"
proof -
  from learn_from_choice_Some [OF assms] obtain prefs b4 n where
    p': "p' = dict_set ''runs'' (PInt (n + 1)) (dict_set ''mode_bias'' (PDict b4) prefs)"
    and rg: "\<forall>v \<in> snd ` set b4. \<exists>r. py_num v = Some r \<and> - 10 \<le> r \<and> r \<le> 10"
    by blast
  have "list_all (\<lambda>kv. case py_num (snd kv) of None \<Rightarrow> False
                         | Some x \<Rightarrow> - 10 \<le> x \<and> x \<le> 10) b4"
    unfolding list_all_iff
  proof
    fix kv assume "kv \<in> set b4"
    then have "snd kv \<in> snd ` set b4" by simp
    with rg obtain r where "py_num (snd kv) = Some r" "- 10 \<le> r" "r \<le> 10" by blast
    then show "case py_num (snd kv) of None \<Rightarrow> False | Some x \<Rightarrow> - 10 \<le> x \<and> x \<le> 10"
      by simp
  qed
  then show ?thesis by (simp add: bias_bounded_def p' map_of_dict_set)
qed

lemma learn_runs:
  assumes "load_prefs ps f = Some prefs"
    and "dict_get prefs ''runs'' (PInt 0) = PInt r"
    and "learn_from_choice ps f segs lr = Some (p', f')"
  shows "map_of p' ''runs'' = Some (PInt (r + 1))"
proof -
  from learn_from_choice_Some [OF assms(3)] assms(1) obtain b4 n where
    "py_int ps (dict_get prefs ''runs'' (PInt 0)) = Some n"
    and "p' = dict_set ''runs'' (PInt (n + 1)) (dict_set ''mode_bias'' (PDict b4) prefs)"
    by auto
  with assms(2) show ?thesis by (simp add: map_of_dict_set)
qed

lemma learn_repeat_last:
  "learn_repeat n ps f segs lr = Some (p, g) \<Longrightarrow>
     \<exists>f''. learn_from_choice ps f'' segs lr = Some (p, g)"
  by (cases n) (auto split: option.splits)

lemma learn_repeat_converges:
  assumes "0 < lr" and "learn_from_choice ps f segs lr \<noteq> None"
    and "nat \<lceil>40 / lr\<rceil> \<le> n" and "m \<in> set allowed"
  shows "repeated_bias n ps f segs lr m
           = Some (PFloat (if m \<in> mode ` set segs then 10 else - 10))"
proof -
  from assms(2) obtain p0 f0 where first: "learn_from_choice ps f segs lr = Some (p0, f0)"
    by auto
  from learn_first [OF first] obtain x y z where st: "settled p0 x y z"
    and rg: "- 10 \<le> x" "x \<le> 10" "- 10 \<le> y" "y \<le> 10" "- 10 \<le> z" "z \<le> 10"
    by blast
  from learn_repeat_settled [OF first st, of n] obtain p where
    rp: "learn_repeat n ps f segs lr = Some (p, Content (PDict p))"
    and sp: "settled p ((step_bias lr (''SUBWAY'' \<in> mode ` set segs) ^^ n) x)
             ((step_bias lr (''BUS'' \<in> mode ` set segs) ^^ n) y)
             ((step_bias lr (''WALK'' \<in> mode ` set segs) ^^ n) z)"
    by blast
  note lim = step_iter_limit [OF assms(1) _ _ assms(3)]
  from settled_bias_of [OF sp] have
    "bias_of p ''SUBWAY'' = Some (PFloat (if ''SUBWAY'' \<in> mode ` set segs then 10 else - 10))"
    "bias_of p ''BUS'' = Some (PFloat (if ''BUS'' \<in> mode ` set segs then 10 else - 10))"
    "bias_of p ''WALK'' = Some (PFloat (if ''WALK'' \<in> mode ` set segs then 10 else - 10))"
    by (simp_all add: lim rg)
  moreover from assms(4) have "m = ''SUBWAY'' \<or> m = ''BUS'' \<or> m = ''WALK''"
    by (simp add: allowed_def)
  ultimately show ?thesis
    by (auto simp: repeated_bias_def rp)
qed

text \<open>
  C5: every bias value in the preferences returned by a learn call, single or repeated,
  is a number in \<open>[-10, 10]\<close>; a call on preferences whose \<open>runs\<close> is the integer \<open>r\<close>
  returns \<open>runs = r + 1\<close>; and for a positive learning rate, once the first call has
  succeeded, every sequence of at least \<open>\<lceil>40 / lr\<rceil> + 1\<close> calls with the same chosen
  segments ends with the bias of each used mode at 10 and of each unused mode at -10.
\<close>

theorem learn_bias_clamped_converges:
  "(learn_from_choice ps f segs lr = Some (p', f') \<longrightarrow> bias_bounded p') \<and>
   (learn_repeat k ps f segs lr = Some (p', f') \<longrightarrow> bias_bounded p') \<and>
   (load_prefs ps f = Some prefs \<and> dict_get prefs ''runs'' (PInt 0) = PInt r \<and>
      learn_from_choice ps f segs lr = Some (p', f') \<longrightarrow>
        map_of p' ''runs'' = Some (PInt (r + 1))) \<and>
   (0 < lr \<and> learn_from_choice ps f segs lr \<noteq> None \<longrightarrow>
      (\<forall>n \<ge> nat \<lceil>40 / lr\<rceil>. \<forall>m \<in> set allowed.
         repeated_bias n ps f segs lr m
           = Some (PFloat (if m \<in> mode ` set segs then 10 else - 10))))"
  using learn_bias_bounded [of ps f segs lr p' f'] learn_runs [of ps f prefs r segs lr p' f']
    learn_repeat_converges [of lr ps f segs]
    learn_repeat_last [of k ps f segs lr p' f'] learn_bias_bounded [of ps _ segs lr p' f']
  by blast

lemma bounded_learned_once: "bias_bounded learned_once"
  by (simp add: bias_bounded_def learned_once_def)

theorem learn_bias_clamped_converges_witness:
  "learn_from_choice no_parse Absent [leg ''SUBWAY'' 10 2] (1 / 2)
     = Some (learned_once, Content (PDict learned_once)) \<and>
   bias_bounded learned_once \<and>
   dict_get DEFAULT_PREFS ''runs'' (PInt 0) = PInt 0 \<and>
   map_of learned_once ''runs'' = Some (PInt (0 + 1)) \<and>
   repeated_bias 80 no_parse Absent [leg ''SUBWAY'' 10 2] (1 / 2) ''SUBWAY'' = Some (PFloat 10) \<and>
   repeated_bias 80 no_parse Absent [leg ''SUBWAY'' 10 2] (1 / 2) ''BUS'' = Some (PFloat (- 10)) \<and>
   repeated_bias 80 no_parse Absent [leg ''SUBWAY'' 10 2] (1 / 2) ''WALK'' = Some (PFloat (- 10))"
proof -
  have r0: "dict_get DEFAULT_PREFS ''runs'' (PInt 0) = PInt 0"
    by (simp add: DEFAULT_PREFS_def dict_get_def)
  have n: "nat \<lceil>40 / (1 / 2 :: real)\<rceil> \<le> 80" by simp
  have a: "''SUBWAY'' \<in> set allowed" "''BUS'' \<in> set allowed" "''WALK'' \<in> set allowed"
    by (simp_all add: allowed_def)
  have ne: "learn_from_choice no_parse Absent [leg ''SUBWAY'' 10 2] (1 / 2) \<noteq> None"
    by (simp add: learn_eval)
  note t = learn_bias_clamped_converges [of no_parse Absent "[leg ''SUBWAY'' 10 2]" "1 / 2"
      learned_once "Content (PDict learned_once)" 0 DEFAULT_PREFS 0]
  from t have c: "\<forall>n \<ge> nat \<lceil>40 / (1 / 2 :: real)\<rceil>. \<forall>m \<in> set allowed.
         repeated_bias n no_parse Absent [leg ''SUBWAY'' 10 2] (1 / 2) m
           = Some (PFloat (if m \<in> mode ` set [leg ''SUBWAY'' 10 2] then 10 else - 10))"
    using ne by simp
  from c n a have
    "repeated_bias 80 no_parse Absent [leg ''SUBWAY'' 10 2] (1 / 2) ''SUBWAY'' = Some (PFloat 10)"
    "repeated_bias 80 no_parse Absent [leg ''SUBWAY'' 10 2] (1 / 2) ''BUS'' = Some (PFloat (- 10))"
    "repeated_bias 80 no_parse Absent [leg ''SUBWAY'' 10 2] (1 / 2) ''WALK'' = Some (PFloat (- 10))"
    by (auto simp: mode_leg)
  moreover from t have "bias_bounded learned_once" "map_of learned_once ''runs'' = Some (PInt (0 + 1))"
    using learn_eval load_prefs_Absent [of no_parse] r0 by simp_all
  ultimately show ?thesis using learn_eval r0 by simp
qed

section \<open>Segment builder\<close>

text \<open>
  C2: a raw leg with the traffic type 7, which is neither subway, bus nor walk, is not
  dropped: the segment builder emits it as a WALK segment whose duration is its distance
  at walking speed (7800 m, 100 minutes).
\<close>

theorem paths_to_segs_unknown_leg:
  "paths_to_segs no_parse Absent plain_world [unknown_leg] None
     = Some [\<lparr>mode = ''WALK'', name = PStr walk_label, distance_m = PInt 7800,
              duration_min = 100, crowd = 1, best_car = None, poly = []\<rparr>]"
  by (simp add: paths_to_segs_def load_prefs_Absent leg_fields_def dict_get_def py_eq_int_def
      AVG_WALK_SPEED_def allowed_def leg_coords_def round_half_even_def unknown_leg_def)

lemma leg_fields_mode:
  "leg_fields ps w i sp = Some (m, nm, dur, dst, cr, best) \<Longrightarrow> m \<in> set allowed"
  by (auto simp: leg_fields_def allowed_def Let_def
      split: pyval.splits option.splits if_splits prod.splits)

lemma paths_loop_keeps_all:
  "paths_loop ps w i paths = Some segs \<Longrightarrow>
     length segs = length paths \<and> (\<forall>s \<in> set segs. mode s \<in> set allowed)"
proof (induction paths arbitrary: i segs)
  case Nil
  then show ?case by simp
next
  case (Cons sp rest)
  from Cons.prems obtain m nm dur dst cr best where
    lf: "leg_fields ps w i sp = Some (m, nm, dur, dst, cr, best)"
    by (auto split: option.splits)
  from leg_fields_mode [OF lf] have ma: "m \<in> set allowed" .
  from Cons.prems lf ma obtain coords d segs' where
    rest: "paths_loop ps w (i + 1) rest = Some segs'"
    and eq: "segs = \<lparr>mode = m, name = nm, distance_m = dst, duration_min = d,
                      crowd = cr, best_car = best, poly = coords\<rparr> # segs'"
    by (auto split: option.splits)
  from Cons.IH [OF rest] ma show ?case by (simp add: eq)
qed

lemma other_leg_is_walk:
  assumes "\<not> py_eq_int (dict_get d ''trafficType'' PNone) 1"
    and "\<not> py_eq_int (dict_get d ''trafficType'' PNone) 2"
    and "py_num (dict_get d ''distance'' (PInt 0)) = Some x"
  shows "leg_fields ps w i (PDict d)
           = Some (''WALK'', PStr walk_label, PFloat (x / AVG_WALK_SPEED / 60),
                   dict_get d ''distance'' (PInt 0), 1, None)"
  using assms by (simp add: leg_fields_def Let_def)

section \<open>Crowd levels\<close>

lemma pct_to_level_range: "1 \<le> pct_to_level pct \<and> pct_to_level pct \<le> 4"
  by (simp add: pct_to_level_def)

lemma subway_level_range: "1 \<le> subway_level src t station \<and> subway_level src t station \<le> 4"
  using pct_to_level_range
  by (auto simp: subway_level_def load_sub_df_def split: csv.splits option.splits obs.splits)

lemma subway_level_default:
  "subway_level NoFile t station = 2"
  "subway_level ReadFails t station = 2"
  "df (day, station, hhmm t) = LookupFails \<or> df (day, station, hhmm t) = NoObs \<Longrightarrow>
     map_of DAY_TYPE (weekday t) = Some day \<Longrightarrow> subway_level (Table df) t station = 2"
  by (auto simp: subway_level_def load_sub_df_def)

lemma bus_crowd_level_range:
  "bus_crowd_level ps src t route_id = Some lvl \<Longrightarrow> 1 \<le> lvl \<and> lvl \<le> 4"
  by (auto simp: bus_crowd_level_def load_bus_df_def split: csv.splits option.splits obs.splits if_splits)

text \<open>
  C8: when the bus table exists but fails to load, the bus estimator raises instead of
  returning the default level 2; the subway estimator returns 2 in the same situation.
\<close>

theorem bus_crowd_level_read_fails:
  "bus_crowd_level ps ReadFails t route_id = None \<and>
   subway_level ReadFails t station = 2"
  by (simp add: bus_crowd_level_def subway_level_def load_bus_df_def load_sub_df_def)

end
